theory Spec2Isabelle
  imports Main
begin

section \<open>Data model of the stream cells\<close>

text \<open>
  The notebook talks to a remote service through its client SDK. The remote service is a
  parameter of the model: a state \<open>'sv\<close> owned by the service and, for each client call,
  a function from that state and the call's arguments to the call's outcome and the next
  state. An exception raised by a call is the left injection of the outcome.

  \<open>ClientError code\<close> is botocore's \<open>ClientError\<close> with
  \<open>ce.response['Error']['Code'] = code\<close>; \<open>OtherException\<close> is any exception that is
  not a \<open>ClientError\<close> (a connection failure, a waiter error); \<open>IndexError\<close> is Python's,
  raised by \<open>['Streams'][0]\<close> on an empty listing; \<open>KeyError k\<close> is Python's, raised by
  \<open>d[k]\<close> when the dictionary \<open>d\<close> has no key \<open>k\<close>.
\<close>

datatype error = ClientError string | OtherException string | IndexError | KeyError string

text \<open>
  An item of a table is a dictionary from attribute names to typed values: strings,
  numbers and string sets are the types the notebook writes. In the service's JSON a value
  is a dictionary with its type as the only key: \<open>S x\<close> is \<open>{'S': x}\<close>.
\<close>

datatype attribute_value = S string | N int | SS "string set"

type_synonym item = "string \<rightharpoonup> attribute_value"

text \<open>
  A change record as the service returns it: \<open>record['eventName']\<close> and the key attributes
  \<open>record['dynamodb']['Keys']\<close> of the item that changed, a dictionary from the names of
  the key attributes of the record's table to their values. The stream that the cell walks
  is the first of \<open>list_streams(Limit=100)\<close>, of whatever table, so the keys need not be
  those of the notebook's table.
\<close>

record change_record =
  eventName :: string
  Keys :: item

text \<open>The response of \<open>get_records\<close>: \<open>'Records'\<close> and the optional \<open>'NextShardIterator'\<close>.\<close>

record get_records_response =
  Records :: "change_record list"
  NextShardIterator :: "string option"

text \<open>
  What a cell does that can be observed, in program order: the lines it prints and, for
  the cell that reads the shards, its calls for iterators and records, each call with its
  outcome. The lines:
  \<^item> \<open>Print msg\<close> is the \<open>print\<close> of the literal \<open>msg\<close>;
  \<^item> \<open>PrintError e\<close> is \<open>print(ce)\<close> and \<open>PrintItem i\<close> is \<open>print(updated_item)\<close>;
  \<^item> \<open>Checking sid\<close> is \<open>print("Checking " + shardId)\<close>;
  \<^item> \<open>FoundRecords k\<close> is \<open>print('    Found records on iteration number: ' + str(count))\<close>;
  \<^item> \<open>RecordLine e a t\<close> is \<open>print ('    ' + eventName + ' - ' + author + ' - ' + title)\<close>;
  \<^item> \<open>ShardClosed k\<close> is
    \<open>print('    Iteration: ' + str(count) + ' - No next iterator found. Shard is closed.')\<close>.
\<close>

datatype event =
    Print string
  | PrintError error
  | PrintItem item
  | Checking string
  | FoundRecords int
  | RecordLine string string string
  | ShardClosed int
  | GetShardIterator string "error + string"
  | GetRecords string "error + get_records_response"

definition polling_limit_msg :: string where
  "polling_limit_msg = ''    Shard still is still active but reached polling limit for demo.''"

record 'sv streams_client =
  list_streams :: "'sv \<Rightarrow> (error + string list) \<times> 'sv"
  describe_stream :: "'sv \<Rightarrow> string \<Rightarrow> (error + string list) \<times> 'sv"
  get_shard_iterator :: "'sv \<Rightarrow> string \<Rightarrow> string \<Rightarrow> (error + string) \<times> 'sv"
  get_records :: "'sv \<Rightarrow> string \<Rightarrow> (error + get_records_response) \<times> 'sv"

text \<open>
  The variables of the cell that reads all shards, the state of the remote service and the
  events so far. The variables keep their values from one shard to the next, as the
  notebook's globals do.
\<close>

record 'sv walker =
  sv :: 'sv
  streamArn :: string
  shardId :: string
  iterator :: string
  get_records_res :: get_records_response
  loop :: bool
  count :: int
  records :: "change_record list"
  next_iterator :: string
  trace :: "event list"

type_synonym 'sv outcome = "(error \<times> 'sv walker) + 'sv walker"

section \<open>The shard walker\<close>

text \<open>
  \<open>keys[name]['S']\<close>: a \<open>KeyError\<close> for the name when the record has no such key, a
  \<open>KeyError\<close> for \<open>'S'\<close> when the key is not a string.
\<close>

definition key_string :: "item \<Rightarrow> string \<Rightarrow> error + string" where
  "key_string keys name =
     (case keys name of
        None \<Rightarrow> Inl (KeyError name)
      | Some v \<Rightarrow> (case v of S x \<Rightarrow> Inr x | _ \<Rightarrow> Inl (KeyError ''S'')))"

text \<open>
  The \<open>for\<close> loop over the records of a batch: the lines printed, and the exception that
  ended the loop, if any. Nothing guards the lookups.
  \<^verbatim>\<open>for record in get_records_res['Records']:
    eventName = record['eventName']
    author = record['dynamodb']['Keys']['Author']['S']
    title = record['dynamodb']['Keys']['Title']['S']
    print ('    ' + eventName + ' - ' + author + ' - ' + title)\<close>
\<close>

fun print_each :: "change_record list \<Rightarrow> event list \<times> error option" where
  "print_each [] = ([], None)"
| "print_each (r # rs) =
     (case key_string (Keys r) ''Author'' of
        Inl e \<Rightarrow> ([], Some e)
      | Inr author \<Rightarrow>
          (case key_string (Keys r) ''Title'' of
             Inl e \<Rightarrow> ([], Some e)
           | Inr title \<Rightarrow>
               (case print_each rs of
                  (ev, err) \<Rightarrow> (RecordLine (eventName r) author title # ev, err))))"

text \<open>
  \<^verbatim>\<open>records = get_records_res['Records']
if (len(records) > 0):
    print('    Found records on iteration number: ' + str(count))
    for record in get_records_res['Records']:
        ...\<close>
\<close>

definition print_records :: "'sv walker \<Rightarrow> 'sv outcome" where
  "print_records w =
     (let w1 = w\<lparr>records := Records (get_records_res w)\<rparr>
      in if length (records w1) > 0
         then (let w2 = w1\<lparr>trace := trace w1 @ [FoundRecords (count w1)]\<rparr>
               in case print_each (Records (get_records_res w2)) of
                    (ev, None) \<Rightarrow> Inr (w2\<lparr>trace := trace w2 @ ev\<rparr>)
                  | (ev, Some e) \<Rightarrow> Inl (e, w2\<lparr>trace := trace w2 @ ev\<rparr>))
         else Inr w1)"

text \<open>
  One pass through the body of \<open>while loop:\<close>, which goes on after the records are printed:
  \<^verbatim>\<open>if 'NextShardIterator' in get_records_res:
    count = count + 1
    next_iterator = get_records_res['NextShardIterator']
    get_records_res = ddbstreams.get_records(ShardIterator=next_iterator)
    if count > 150:
        print('    Shard still is still active but reached polling limit for demo.')
        loop = False
else:
    print('    Iteration: ' + str(count) + ' - No next iterator found. Shard is closed.')
    loop = False\<close>
  Neither the printing nor the call to \<open>get_records\<close> is inside a \<open>try\<close>: an exception
  leaves the cell with the state as it was when it was raised.
\<close>

definition loop_body :: "'sv streams_client \<Rightarrow> 'sv walker \<Rightarrow> 'sv outcome" where
  "loop_body c w =
     (case print_records w of
        Inl x \<Rightarrow> Inl x
      | Inr w1 \<Rightarrow>
          (case NextShardIterator (get_records_res w1) of
             Some nxt \<Rightarrow>
               (let w2 = w1\<lparr>count := count w1 + 1, next_iterator := nxt\<rparr>
                in case get_records c (sv w2) (next_iterator w2) of
                     (Inl e, s) \<Rightarrow>
                       Inl (e, w2\<lparr>sv := s,
                                   trace := trace w2 @ [GetRecords (next_iterator w2) (Inl e)]\<rparr>)
                   | (Inr r, s) \<Rightarrow>
                       (let w3 = w2\<lparr>sv := s, get_records_res := r,
                                     trace := trace w2 @ [GetRecords (next_iterator w2) (Inr r)]\<rparr>
                        in if count w3 > 150
                           then Inr (w3\<lparr>trace := trace w3 @ [Print polling_limit_msg],
                                        loop := False\<rparr>)
                           else Inr w3))
           | None \<Rightarrow>
               Inr (w1\<lparr>trace := trace w1 @ [ShardClosed (count w1)], loop := False\<rparr>)))"

function while_loop :: "'sv streams_client \<Rightarrow> 'sv walker \<Rightarrow> 'sv outcome" where
  "while_loop c w =
     (if loop w
      then (case loop_body c w of Inl x \<Rightarrow> Inl x | Inr w' \<Rightarrow> while_loop c w')
      else Inr w)"
  by pat_completeness auto
termination
proof (relation "measure (\<lambda>(c, w). if loop w then Suc (nat (151 - count w)) else 0)")
  show "wf (measure (\<lambda>(c :: 'sv streams_client, w :: 'sv walker).
              if loop w then Suc (nat (151 - count w)) else 0))"
    by simp
next
  fix c :: "'sv streams_client" and w w' :: "'sv walker"
  assume l: "loop w" and b: "loop_body c w = Inr w'"
  from b have p: "count w' = count w + 1 \<and> count w' \<le> 150" if "loop w'"
    using that
    by (auto simp: loop_body_def print_records_def Let_def
             split: option.splits prod.splits sum.splits if_splits)
  show "((c, w'), (c, w)) \<in> measure (\<lambda>(c, w). if loop w then Suc (nat (151 - count w)) else 0)"
  proof (cases "loop w'")
    case True
    from p [OF True] show ?thesis using l True by simp
  next
    case False
    then show ?thesis using l by simp
  qed
qed

declare while_loop.simps [simp del]

text \<open>
  The body of \<open>for shard in ...['Shards']:\<close> for one shard: a fresh iterator at the trim
  horizon, the first fetch, then the loop.
  \<^verbatim>\<open>shardId = shard['ShardId']
iterator = ddbstreams.get_shard_iterator(StreamArn=streamArn, ShardId=shardId,
                             ShardIteratorType='TRIM_HORIZON')['ShardIterator']
get_records_res = ddbstreams.get_records(ShardIterator=iterator)
print("Checking " + shardId)
loop = True
count = 0
while loop:
    ...\<close>
  The iterator type is \<open>TRIM_HORIZON\<close> in every call, so it is not an argument of
  \<open>get_shard_iterator\<close> in the model.
\<close>

definition read_shard :: "'sv streams_client \<Rightarrow> string \<Rightarrow> 'sv walker \<Rightarrow> 'sv outcome" where
  "read_shard c shard w =
     (let w0 = w\<lparr>shardId := shard\<rparr>
      in case get_shard_iterator c (sv w0) (streamArn w0) (shardId w0) of
           (Inl e, s) \<Rightarrow>
             Inl (e, w0\<lparr>sv := s, trace := trace w0 @ [GetShardIterator (shardId w0) (Inl e)]\<rparr>)
         | (Inr it, s) \<Rightarrow>
             (let w1 = w0\<lparr>sv := s, iterator := it,
                           trace := trace w0 @ [GetShardIterator (shardId w0) (Inr it)]\<rparr>
              in case get_records c (sv w1) (iterator w1) of
                   (Inl e, s') \<Rightarrow>
                     Inl (e, w1\<lparr>sv := s',
                                 trace := trace w1 @ [GetRecords (iterator w1) (Inl e)]\<rparr>)
                 | (Inr r, s') \<Rightarrow>
                     while_loop c
                       (w1\<lparr>sv := s', get_records_res := r,
                           trace := trace w1 @ [GetRecords (iterator w1) (Inr r),
                                                Checking (shardId w1)],
                           loop := True, count := 0\<rparr>)))"

fun for_shards :: "'sv streams_client \<Rightarrow> string list \<Rightarrow> 'sv walker \<Rightarrow> 'sv outcome" where
  "for_shards c [] w = Inr w"
| "for_shards c (shard # rest) w =
     (case read_shard c shard w of Inl x \<Rightarrow> Inl x | Inr w' \<Rightarrow> for_shards c rest w')"

text \<open>
  The whole cell: the first stream of the listing, its shards in the order listed, and
  \<open>print("Done!")\<close>.
\<close>

definition read_all_shards :: "'sv streams_client \<Rightarrow> 'sv walker \<Rightarrow> 'sv outcome" where
  "read_all_shards c w =
     (case list_streams c (sv w) of
        (Inl e, s) \<Rightarrow> Inl (e, w\<lparr>sv := s\<rparr>)
      | (Inr arns, s) \<Rightarrow>
          (case arns of
             [] \<Rightarrow> Inl (IndexError, w\<lparr>sv := s\<rparr>)
           | arn # _ \<Rightarrow>
               (let w1 = w\<lparr>sv := s, streamArn := arn\<rparr>
                in case describe_stream c (sv w1) (streamArn w1) of
                     (Inl e, s') \<Rightarrow> Inl (e, w1\<lparr>sv := s'\<rparr>)
                   | (Inr shards, s') \<Rightarrow>
                       (case for_shards c shards (w1\<lparr>sv := s'\<rparr>) of
                          Inl x \<Rightarrow> Inl x
                        | Inr w' \<Rightarrow> Inr (w'\<lparr>trace := trace w' @ [Print ''Done!'']\<rparr>)))))"

section \<open>The table cells\<close>

text \<open>
  The condition of a conditional write, after the placeholders of the expression are
  replaced by their names and values: \<open>attribute_not_exists(Title)\<close> and
  \<open>Version = :ver\<close>.
\<close>

datatype condition = AttributeNotExists string | AttributeEquals string attribute_value

text \<open>
  The request of \<open>update_item\<close>: the key (author, title), the assignments of the \<open>SET\<close>
  expression in order, and the optional condition. \<open>ReturnValues\<close> is \<open>ALL_NEW\<close> in every
  call of the notebook.
\<close>

record update_request =
  Key :: "string \<times> string"
  UpdateExpression :: "(string \<times> attribute_value) list"
  ConditionExpression :: "condition option"

record 'db table_client =
  create_table :: "'db \<Rightarrow> (error + unit) \<times> 'db"
  wait_until_exists :: "'db \<Rightarrow> (error + unit) \<times> 'db"
  put_item :: "'db \<Rightarrow> item \<Rightarrow> condition option \<Rightarrow> (error + unit) \<times> 'db"
  update_item :: "'db \<Rightarrow> update_request \<Rightarrow> (error + item) \<times> 'db"
  delete_table :: "'db \<Rightarrow> (error + unit) \<times> 'db"
  wait_until_not_exists :: "'db \<Rightarrow> (error + unit) \<times> 'db"

text \<open>The state of the remote table service, the variable \<open>updated_item\<close> and the output.\<close>

record 'db notebook =
  db :: 'db
  updated_item :: item
  out :: "event list"

type_synonym 'db cell_outcome = "(error \<times> 'db notebook) + 'db notebook"

definition say :: "string \<Rightarrow> 'db notebook \<Rightarrow> 'db notebook" where
  "say msg nb = nb\<lparr>out := out nb @ [Print msg]\<rparr>"

text \<open>
  The cell that creates the table. Both calls are inside the \<open>try\<close>; the handler catches
  \<open>ClientError\<close> only.
\<close>

definition create_table_handler :: "error \<Rightarrow> 'db notebook \<Rightarrow> 'db cell_outcome" where
  "create_table_handler e nb =
     (case e of
        ClientError code \<Rightarrow>
          (if code = ''ResourceInUseException''
           then Inr (say ''Table already exists. Nothing to do.'' nb)
           else Inr (nb\<lparr>out := out nb @ [PrintError e]\<rparr>))
      | _ \<Rightarrow> Inl (e, nb))"

definition create_table_cell :: "'db table_client \<Rightarrow> 'db notebook \<Rightarrow> 'db cell_outcome" where
  "create_table_cell c nb =
     (let nb1 = say ''Creating table...'' nb
      in case create_table c (db nb1) of
           (Inl e, d) \<Rightarrow> create_table_handler e (nb1\<lparr>db := d\<rparr>)
         | (Inr u, d) \<Rightarrow>
             (let nb2 = say ''Waiting for table to become active...'' (nb1\<lparr>db := d\<rparr>)
              in case wait_until_exists c (db nb2) of
                   (Inl e, d') \<Rightarrow> create_table_handler e (nb2\<lparr>db := d'\<rparr>)
                 | (Inr u', d') \<Rightarrow> Inr (say ''Table ready!'' (nb2\<lparr>db := d'\<rparr>))))"

text \<open>
  The conditional put. The handler has a branch for \<open>ConditionalCheckFailedException\<close>
  and no \<open>else\<close>.
\<close>

definition jill_item :: item where
  "jill_item = [''Author'' \<mapsto> S ''Jill'', ''Title'' \<mapsto> S ''Ice Cream Part 2'']"

definition conditional_put_cell :: "'db table_client \<Rightarrow> 'db notebook \<Rightarrow> 'db cell_outcome" where
  "conditional_put_cell c nb =
     (case put_item c (db nb) jill_item (Some (AttributeNotExists ''Title'')) of
        (Inl e, d) \<Rightarrow>
          (case e of
             ClientError code \<Rightarrow>
               (if code = ''ConditionalCheckFailedException''
                then Inr (say ''The item already exists. PutItem Canceled. '' (nb\<lparr>db := d\<rparr>))
                else Inr (nb\<lparr>db := d\<rparr>))
           | _ \<Rightarrow> Inl (e, nb\<lparr>db := d\<rparr>))
      | (Inr u, d) \<Rightarrow> Inr (nb\<lparr>db := d\<rparr>))"

text \<open>
  The conditional update for optimistic concurrency control, and the cell that runs the
  same update again inside a \<open>try\<close>.
\<close>

definition versioned_update :: update_request where
  "versioned_update =
     \<lparr>Key = (''Herman Melville'', ''Moby Dick''),
      UpdateExpression = [(''Rating'', N 1), (''Version'', N 3)],
      ConditionExpression = Some (AttributeEquals ''Version'' (N 2))\<rparr>"

definition conditional_update_cell :: "'db table_client \<Rightarrow> 'db notebook \<Rightarrow> 'db cell_outcome" where
  "conditional_update_cell c nb =
     (case update_item c (db nb) versioned_update of
        (Inl e, d) \<Rightarrow> Inl (e, nb\<lparr>db := d\<rparr>)
      | (Inr attrs, d) \<Rightarrow>
          Inr (nb\<lparr>db := d, updated_item := attrs, out := out nb @ [PrintItem attrs]\<rparr>))"

definition repeated_update_cell :: "'db table_client \<Rightarrow> 'db notebook \<Rightarrow> 'db cell_outcome" where
  "repeated_update_cell c nb =
     (case update_item c (db nb) versioned_update of
        (Inl e, d) \<Rightarrow>
          (case e of
             ClientError code \<Rightarrow>
               (if code = ''ConditionalCheckFailedException''
                then Inr (say ''Version attribute is not the expected value ... the item must have been updated''
                           (say ''Exception Condition Triggered as expected'' (nb\<lparr>db := d\<rparr>)))
                else Inr (nb\<lparr>db := d, out := out nb @ [PrintError e]\<rparr>))
           | _ \<Rightarrow> Inl (e, nb\<lparr>db := d\<rparr>))
      | (Inr attrs, d) \<Rightarrow>
          Inr (nb\<lparr>db := d, updated_item := attrs, out := out nb @ [PrintItem attrs]\<rparr>))"

text \<open>The cell that deletes the table. Its handler has no \<open>else\<close> either.\<close>

definition delete_table_handler :: "error \<Rightarrow> 'db notebook \<Rightarrow> 'db cell_outcome" where
  "delete_table_handler e nb =
     (case e of
        ClientError code \<Rightarrow>
          (if code = ''ResourceNotFoundException''
           then Inr (say ''No table found. Nothing to do.'' nb)
           else Inr nb)
      | _ \<Rightarrow> Inl (e, nb))"

definition delete_table_cell :: "'db table_client \<Rightarrow> 'db notebook \<Rightarrow> 'db cell_outcome" where
  "delete_table_cell c nb =
     (let nb1 = say ''Deleting table...'' nb
      in case delete_table c (db nb1) of
           (Inl e, d) \<Rightarrow> delete_table_handler e (nb1\<lparr>db := d\<rparr>)
         | (Inr u, d) \<Rightarrow>
             (let nb2 = say ''Waiting for table to be deleted...'' (nb1\<lparr>db := d\<rparr>)
              in case wait_until_not_exists c (db nb2) of
                   (Inl e, d') \<Rightarrow> delete_table_handler e (nb2\<lparr>db := d'\<rparr>)
                 | (Inr u', d') \<Rightarrow> Inr (say ''Table deleted!'' (nb2\<lparr>db := d'\<rparr>))))"

section \<open>The table service\<close>

text \<open>
  The remote table service is not part of the repository; the definitions of this section
  follow what the spec says of it. The state of the service is the table of the notebook,
  if it exists: a map from the key (author, title) to the item.
\<close>

type_synonym table = "(string \<times> string) \<rightharpoonup> item"

text \<open>
  Modelled from the spec: the predicate of a conditional write, evaluated by the service on
  the current state of the item. The spec: a conditional write is "a write accepted only if
  a predicate over the current item state holds".
\<close>

definition holds :: "condition \<Rightarrow> item option \<Rightarrow> bool" where
  "holds cond cur =
     (case cond of
        AttributeNotExists a \<Rightarrow> (case cur of None \<Rightarrow> True | Some i \<Rightarrow> i a = None)
      | AttributeEquals a v \<Rightarrow> (case cur of None \<Rightarrow> False | Some i \<Rightarrow> i a = Some v))"

definition accepted :: "condition option \<Rightarrow> item option \<Rightarrow> bool" where
  "accepted cond cur = (case cond of None \<Rightarrow> True | Some p \<Rightarrow> holds p cur)"

definition key_item :: "string \<times> string \<Rightarrow> item" where
  "key_item k = [''Author'' \<mapsto> S (fst k), ''Title'' \<mapsto> S (snd k)]"

definition assign :: "(string \<times> attribute_value) list \<Rightarrow> item \<Rightarrow> item" where
  "assign sets i = fold (\<lambda>(a, v) m. m(a \<mapsto> v)) sets i"

text \<open>
  Modelled from the spec: the service's \<open>update_item\<close>, which the repository only calls.
  The spec: update supports "attribute set/remove with optional version-conditioned
  compare-and-swap"; a conditioned update that is not accepted fails with
  \<open>ConditionalCheckFailed\<close>; operating on a missing table fails with \<open>ResourceNotFound\<close>.
  An accepted update sets the attributes in order and returns the new item.
\<close>

definition service_update_item ::
  "table option \<Rightarrow> update_request \<Rightarrow> (error + item) \<times> table option" where
  "service_update_item st req =
     (case st of
        None \<Rightarrow> (Inl (ClientError ''ResourceNotFoundException''), st)
      | Some t \<Rightarrow>
          (if accepted (ConditionExpression req) (t (Key req))
           then (let new = assign (UpdateExpression req)
                             (case t (Key req) of None \<Rightarrow> key_item (Key req) | Some i \<Rightarrow> i)
                 in (Inr new, Some (t(Key req \<mapsto> new))))
           else (Inl (ClientError ''ConditionalCheckFailedException''), st)))"

text \<open>
  Modelled from the spec: the service's \<open>put_item\<close>, "optionally conditioned on an
  attribute-existence predicate", under the key the item carries.
\<close>

definition service_put_item ::
  "table option \<Rightarrow> item \<Rightarrow> condition option \<Rightarrow> (error + unit) \<times> table option" where
  "service_put_item st i cond =
     (case st of
        None \<Rightarrow> (Inl (ClientError ''ResourceNotFoundException''), st)
      | Some t \<Rightarrow>
          (case (i ''Author'', i ''Title'') of
             (Some (S a), Some (S b)) \<Rightarrow>
               (if accepted cond (t (a, b))
                then (Inr (), Some (t((a, b) \<mapsto> i)))
                else (Inl (ClientError ''ConditionalCheckFailedException''), st))
           | _ \<Rightarrow> (Inl (ClientError ''ValidationException''), st)))"

text \<open>
  Modelled from the spec: the service as a whole. A table create on an existing name fails
  with the already-exists error, for which the notebook tests the code
  \<open>ResourceInUseException\<close>; deleting a missing table fails with the not-found error.
\<close>

definition table_service :: "table option table_client" where
  "table_service =
     \<lparr>create_table = (\<lambda>st. case st of
          None \<Rightarrow> (Inr (), Some Map.empty)
        | Some t \<Rightarrow> (Inl (ClientError ''ResourceInUseException''), st)),
      wait_until_exists = (\<lambda>st. (Inr (), st)),
      put_item = service_put_item,
      update_item = service_update_item,
      delete_table = (\<lambda>st. case st of
          None \<Rightarrow> (Inl (ClientError ''ResourceNotFoundException''), st)
        | Some t \<Rightarrow> (Inr (), None)),
      wait_until_not_exists = (\<lambda>st. (Inr (), st))\<rparr>"

text \<open>A service that refuses every write for lack of capacity.\<close>

definition throttled :: "'db table_client" where
  "throttled =
     \<lparr>create_table = (\<lambda>st. (Inl (ClientError ''ProvisionedThroughputExceededException''), st)),
      wait_until_exists = (\<lambda>st. (Inr (), st)),
      put_item = (\<lambda>st i cond.
        (Inl (ClientError ''ProvisionedThroughputExceededException''), st)),
      update_item = (\<lambda>st req.
        (Inl (ClientError ''ProvisionedThroughputExceededException''), st)),
      delete_table = (\<lambda>st. (Inl (ClientError ''ProvisionedThroughputExceededException''), st)),
      wait_until_not_exists = (\<lambda>st. (Inr (), st))\<rparr>"

section \<open>Observing a run\<close>

definition final :: "(error \<times> 'a) + 'a \<Rightarrow> 'a" where
  "final x = (case x of Inl (e, w) \<Rightarrow> w | Inr w \<Rightarrow> w)"

definition raised :: "(error \<times> 'a) + 'a \<Rightarrow> error option" where
  "raised x = (case x of Inl (e, w) \<Rightarrow> Some e | Inr w \<Rightarrow> None)"

definition events_since :: "'sv walker \<Rightarrow> 'sv walker \<Rightarrow> event list" where
  "events_since w w' = drop (length (trace w)) (trace w')"

text \<open>
  The lines of a batch and the exception of a batch, as \<open>print_each\<close> gives them; a record
  with the string keys \<open>Author\<close> and \<open>Title\<close>, and its line.
\<close>

definition printed_lines :: "change_record list \<Rightarrow> event list" where
  "printed_lines rs = fst (print_each rs)"

definition print_failure :: "change_record list \<Rightarrow> error option" where
  "print_failure rs = snd (print_each rs)"

definition well_keyed :: "change_record \<Rightarrow> bool" where
  "well_keyed r =
     (case Keys r ''Author'' of
        Some (S a) \<Rightarrow> (case Keys r ''Title'' of Some (S t) \<Rightarrow> True | _ \<Rightarrow> False)
      | _ \<Rightarrow> False)"

text \<open>
  The line of a record that has both keys: its event name, author and title. (For a record
  without them, which the cell prints no line for, the missing string is empty.)
\<close>

definition string_key :: "item \<Rightarrow> string \<Rightarrow> string" where
  "string_key keys name = (case keys name of Some (S x) \<Rightarrow> x | _ \<Rightarrow> [])"

definition record_line :: "change_record \<Rightarrow> event" where
  "record_line r =
     RecordLine (eventName r) (string_key (Keys r) ''Author'') (string_key (Keys r) ''Title'')"

text \<open>What the walker prints for a batch in the pass with the counter at \<open>k\<close>.\<close>

definition found :: "int \<Rightarrow> change_record list \<Rightarrow> event list" where
  "found k rs = (if length rs > 0 then FoundRecords k # printed_lines rs else [])"

fun printed :: "event list \<Rightarrow> event list" where
  "printed [] = []"
| "printed (GetShardIterator sid res # ev) = printed ev"
| "printed (GetRecords it res # ev) = printed ev"
| "printed (e # ev) = e # printed ev"

fun record_lines :: "event list \<Rightarrow> event list" where
  "record_lines [] = []"
| "record_lines (RecordLine n a t # ev) = RecordLine n a t # record_lines ev"
| "record_lines (e # ev) = record_lines ev"

fun fetched :: "event list \<Rightarrow> string list" where
  "fetched [] = []"
| "fetched (GetRecords it res # ev) = it # fetched ev"
| "fetched (e # ev) = fetched ev"

fun outcomes :: "event list \<Rightarrow> (error + get_records_response) list" where
  "outcomes [] = []"
| "outcomes (GetRecords it res # ev) = res # outcomes ev"
| "outcomes (e # ev) = outcomes ev"

fun handed_out :: "event list \<Rightarrow> string list" where
  "handed_out [] = []"
| "handed_out (GetShardIterator sid (Inr it) # ev) = it # handed_out ev"
| "handed_out (GetRecords it (Inr r) # ev) =
     (case NextShardIterator r of Some nxt \<Rightarrow> nxt # handed_out ev | None \<Rightarrow> handed_out ev)"
| "handed_out (e # ev) = handed_out ev"

fun founds :: "int \<Rightarrow> change_record list list \<Rightarrow> event list" where
  "founds k [] = []"
| "founds k (b # bs) = found k b @ founds (k + 1) bs"

text \<open>
  \<open>numbered n ev\<close>: every iteration number printed in \<open>ev\<close>, with a header or with the
  closing line, is \<open>n\<close> plus the number of fetches issued in \<open>ev\<close> before it.
\<close>

fun numbered :: "int \<Rightarrow> event list \<Rightarrow> bool" where
  "numbered n [] = True"
| "numbered n (GetRecords it res # ev) = numbered (n + 1) ev"
| "numbered n (FoundRecords k # ev) = (k = n \<and> numbered n ev)"
| "numbered n (ShardClosed k # ev) = (k = n \<and> numbered n ev)"
| "numbered n (e # ev) = numbered n ev"

definition cursor_of :: "get_records_response \<Rightarrow> string list" where
  "cursor_of r = (case NextShardIterator r of Some nxt \<Rightarrow> [nxt] | None \<Rightarrow> [])"

section \<open>What the claims suppose of the service\<close>

text \<open>
  \<open>serves c s r bs\<close>: the response \<open>r\<close> in hand
  and the fetches that follow its cursors from the service state \<open>s\<close> deliver the batches
  \<open>bs\<close>, one batch a response, and the response with the last batch has no next cursor.
  \<open>opens c s r bs\<close>: the same batches, but every response has a next cursor and the fetch
  after the last batch succeeds too.
\<close>

fun serves ::
  "'sv streams_client \<Rightarrow> 'sv \<Rightarrow> get_records_response \<Rightarrow> change_record list list \<Rightarrow> bool" where
  "serves c s r [] = False"
| "serves c s r [b] = (Records r = b \<and> NextShardIterator r = None)"
| "serves c s r (b # b' # bs) =
     (Records r = b \<and>
      (case NextShardIterator r of
         None \<Rightarrow> False
       | Some nxt \<Rightarrow>
           (case get_records c s nxt of
              (Inl e, s1) \<Rightarrow> False
            | (Inr r', s1) \<Rightarrow> serves c s1 r' (b' # bs))))"

fun opens ::
  "'sv streams_client \<Rightarrow> 'sv \<Rightarrow> get_records_response \<Rightarrow> change_record list list \<Rightarrow> bool" where
  "opens c s r [] = True"
| "opens c s r (b # bs) =
     (Records r = b \<and>
      (case NextShardIterator r of
         None \<Rightarrow> False
       | Some nxt \<Rightarrow>
           (case get_records c s nxt of
              (Inl e, s1) \<Rightarrow> False
            | (Inr r', s1) \<Rightarrow> opens c s1 r' bs)))"

text \<open>The response \<open>n\<close> fetches after \<open>r\<close>, when the cursors lead that far.\<close>

fun after ::
  "'sv streams_client \<Rightarrow> 'sv \<Rightarrow> get_records_response \<Rightarrow> nat \<Rightarrow> get_records_response option" where
  "after c s r 0 = Some r"
| "after c s r (Suc n) =
     (case NextShardIterator r of
        None \<Rightarrow> None
      | Some nxt \<Rightarrow>
          (case get_records c s nxt of
             (Inl e, s1) \<Rightarrow> None
           | (Inr r', s1) \<Rightarrow> after c s1 r' n))"

definition shard_serves ::
  "'sv streams_client \<Rightarrow> 'sv \<Rightarrow> string \<Rightarrow> string \<Rightarrow> change_record list list \<Rightarrow> bool" where
  "shard_serves c s arn sid bs =
     (case get_shard_iterator c s arn sid of
        (Inl e, s1) \<Rightarrow> False
      | (Inr it, s1) \<Rightarrow>
          (case get_records c s1 it of
             (Inl e, s2) \<Rightarrow> False
           | (Inr r, s2) \<Rightarrow> serves c s2 r bs))"

definition shard_opens ::
  "'sv streams_client \<Rightarrow> 'sv \<Rightarrow> string \<Rightarrow> string \<Rightarrow> change_record list list \<Rightarrow> bool" where
  "shard_opens c s arn sid bs =
     (case get_shard_iterator c s arn sid of
        (Inl e, s1) \<Rightarrow> False
      | (Inr it, s1) \<Rightarrow>
          (case get_records c s1 it of
             (Inl e, s2) \<Rightarrow> False
           | (Inr r, s2) \<Rightarrow> opens c s2 r bs))"

text \<open>The response \<open>n\<close> fetches after the first one of a shard.\<close>

definition shard_after ::
  "'sv streams_client \<Rightarrow> 'sv \<Rightarrow> string \<Rightarrow> string \<Rightarrow> nat \<Rightarrow> get_records_response option" where
  "shard_after c s arn sid n =
     (case get_shard_iterator c s arn sid of
        (Inl e, s1) \<Rightarrow> None
      | (Inr it, s1) \<Rightarrow>
          (case get_records c s1 it of
             (Inl e, s2) \<Rightarrow> None
           | (Inr r, s2) \<Rightarrow> after c s2 r n))"

text \<open>A shard that never closes: every fetch returns zero records and a next cursor.\<close>

definition never_closes :: "'sv streams_client \<Rightarrow> bool" where
  "never_closes c =
     (\<forall>s it. case get_records c s it of
               (Inl e, s1) \<Rightarrow> False
             | (Inr r, s1) \<Rightarrow> Records r = [] \<and> NextShardIterator r \<noteq> None)"

text \<open>The outcome of a fetch that returns zero records and a next cursor.\<close>

definition empty_open :: "error + get_records_response \<Rightarrow> bool" where
  "empty_open res =
     (case res of Inl e \<Rightarrow> False | Inr r \<Rightarrow> Records r = [] \<and> NextShardIterator r \<noteq> None)"

section \<open>Sample services and states\<close>

text \<open>
  A service with one stream of one shard whose cursors are stable: the cursor of position
  \<open>p\<close> is a string of length \<open>p\<close>, the fetch at position \<open>p\<close> returns the batch \<open>bs ! p\<close>,
  and the last batch comes without a next cursor. \<open>idle\<close> is a shard that stays open and
  empty.
\<close>

definition scripted_response :: "change_record list list \<Rightarrow> string \<Rightarrow> get_records_response" where
  "scripted_response bs it =
     \<lparr>Records = bs ! length it,
      NextShardIterator = (if Suc (length it) < length bs then Some (CHR ''i'' # it) else None)\<rparr>"

definition scripted :: "change_record list list \<Rightarrow> 'sv streams_client" where
  "scripted bs =
     \<lparr>list_streams = (\<lambda>s. (Inr [''arn:stream''], s)),
      describe_stream = (\<lambda>s arn. (Inr [''shard-0''], s)),
      get_shard_iterator = (\<lambda>s arn sid. (Inr [], s)),
      get_records = (\<lambda>s it.
        (if length it < length bs then Inr (scripted_response bs it)
         else Inl (ClientError ''ExpiredIteratorException''), s))\<rparr>"

definition idle :: "'sv streams_client" where
  "idle =
     \<lparr>list_streams = (\<lambda>s. (Inr [''arn:stream''], s)),
      describe_stream = (\<lambda>s arn. (Inr [''shard-0''], s)),
      get_shard_iterator = (\<lambda>s arn sid. (Inr [], s)),
      get_records = (\<lambda>s it.
        (Inr \<lparr>Records = [], NextShardIterator = Some (CHR ''i'' # it)\<rparr>, s))\<rparr>"

definition sample_record :: change_record where
  "sample_record =
     \<lparr>eventName = ''INSERT'',
      Keys = [''Author'' \<mapsto> S ''Jill'', ''Title'' \<mapsto> S ''Ice Cream Part 2'']\<rparr>"

definition other_record :: change_record where
  "other_record =
     \<lparr>eventName = ''MODIFY'',
      Keys = [''Author'' \<mapsto> S ''Herman Melville'', ''Title'' \<mapsto> S ''Moby Dick'']\<rparr>"

text \<open>A record of another table, whose key is an order number.\<close>

definition foreign_record :: change_record where
  "foreign_record = \<lparr>eventName = ''INSERT'', Keys = [''OrderId'' \<mapsto> N 17]\<rparr>"

text \<open>
  A service with two shards, named by their iterators: every shard whose name begins with
  \<open>o\<close> stays open and empty, every other shard is closed and holds one record.
\<close>

definition two_shards :: "'sv streams_client" where
  "two_shards =
     \<lparr>list_streams = (\<lambda>s. (Inr [''arn:stream''], s)),
      describe_stream = (\<lambda>s arn. (Inr [''open-shard'', ''closed-shard''], s)),
      get_shard_iterator = (\<lambda>s arn sid. (Inr sid, s)),
      get_records = (\<lambda>s it.
        (if it \<noteq> [] \<and> hd it = CHR ''o''
         then Inr \<lparr>Records = [], NextShardIterator = Some (it @ ''i'')\<rparr>
         else Inr \<lparr>Records = [sample_record], NextShardIterator = None\<rparr>, s))\<rparr>"

definition start :: "'sv \<Rightarrow> 'sv walker" where
  "start s =
     \<lparr>sv = s, streamArn = ''arn:stream'', shardId = [], iterator = [],
      get_records_res = \<lparr>Records = [], NextShardIterator = None\<rparr>, loop = False, count = 0,
      records = [], next_iterator = [], trace = []\<rparr>"

definition demo_batches :: "change_record list list" where
  "demo_batches = [[sample_record], [], [other_record, sample_record]]"

definition polling_state :: "int \<Rightarrow> string \<Rightarrow> 'sv \<Rightarrow> 'sv walker" where
  "polling_state k nxt s =
     (start s)\<lparr>get_records_res := \<lparr>Records = [], NextShardIterator = Some nxt\<rparr>,
               loop := True, count := k\<rparr>"

definition fresh_notebook :: "'db \<Rightarrow> 'db notebook" where
  "fresh_notebook d = \<lparr>db = d, updated_item = Map.empty, out = []\<rparr>"

definition moby_dick :: item where
  "moby_dick =
     [''Author'' \<mapsto> S ''Herman Melville'', ''Title'' \<mapsto> S ''Moby Dick'',
      ''Rating'' \<mapsto> N 5, ''Version'' \<mapsto> N 2]"

definition books :: table where
  "books = [(''Herman Melville'', ''Moby Dick'') \<mapsto> moby_dick]"

section \<open>Runs of the loop and of a shard\<close>

inductive loop_run ::
  "'sv streams_client \<Rightarrow> 'sv \<Rightarrow> int \<Rightarrow> get_records_response \<Rightarrow>
     event list \<Rightarrow> 'sv \<Rightarrow> int \<Rightarrow> get_records_response \<Rightarrow> error option \<Rightarrow> bool"
  for c :: "'sv streams_client" where
  bad_record:
    "print_failure (Records r) = Some e \<Longrightarrow>
     loop_run c s k r (found k (Records r)) s k r (Some e)"
| closed:
    "print_failure (Records r) = None \<Longrightarrow> NextShardIterator r = None \<Longrightarrow>
     loop_run c s k r (found k (Records r) @ [ShardClosed k]) s k r None"
| failed:
    "print_failure (Records r) = None \<Longrightarrow>
     NextShardIterator r = Some nxt \<Longrightarrow> get_records c s nxt = (Inl e, s1) \<Longrightarrow>
     loop_run c s k r (found k (Records r) @ [GetRecords nxt (Inl e)]) s1 (k + 1) r (Some e)"
| limit:
    "print_failure (Records r) = None \<Longrightarrow>
     NextShardIterator r = Some nxt \<Longrightarrow> get_records c s nxt = (Inr r', s1) \<Longrightarrow>
     k + 1 > 150 \<Longrightarrow>
     loop_run c s k r
       (found k (Records r) @ [GetRecords nxt (Inr r'), Print polling_limit_msg])
       s1 (k + 1) r' None"
| again:
    "print_failure (Records r) = None \<Longrightarrow>
     NextShardIterator r = Some nxt \<Longrightarrow> get_records c s nxt = (Inr r', s1) \<Longrightarrow>
     \<not> k + 1 > 150 \<Longrightarrow> loop_run c s1 (k + 1) r' ev s' k' rf err \<Longrightarrow>
     loop_run c s k r (found k (Records r) @ GetRecords nxt (Inr r') # ev) s' k' rf err"

text \<open>The three ways through the body of the \<open>for\<close> loop.\<close>

inductive shard_run ::
  "'sv streams_client \<Rightarrow> 'sv \<Rightarrow> string \<Rightarrow> string \<Rightarrow> event list \<Rightarrow> 'sv \<Rightarrow> error option \<Rightarrow> bool"
  for c :: "'sv streams_client" where
  no_iterator:
    "get_shard_iterator c s arn sid = (Inl e, s1) \<Longrightarrow>
     shard_run c s arn sid [GetShardIterator sid (Inl e)] s1 (Some e)"
| no_first_fetch:
    "get_shard_iterator c s arn sid = (Inr it, s1) \<Longrightarrow> get_records c s1 it = (Inl e, s2) \<Longrightarrow>
     shard_run c s arn sid [GetShardIterator sid (Inr it), GetRecords it (Inl e)] s2 (Some e)"
| looped:
    "get_shard_iterator c s arn sid = (Inr it, s1) \<Longrightarrow> get_records c s1 it = (Inr r, s2) \<Longrightarrow>
     loop_run c s2 0 r ev s' k' rf err \<Longrightarrow>
     shard_run c s arn sid
       (GetShardIterator sid (Inr it) # GetRecords it (Inr r) # Checking sid # ev) s' err"

section \<open>Lemmas\<close>

lemma printed_append [simp]: "printed (xs @ ys) = printed xs @ printed ys"
  by (induction xs rule: printed.induct) simp_all

lemma record_lines_append [simp]: "record_lines (xs @ ys) = record_lines xs @ record_lines ys"
  by (induction xs rule: record_lines.induct) simp_all

lemma fetched_append [simp]: "fetched (xs @ ys) = fetched xs @ fetched ys"
  by (induction xs rule: fetched.induct) simp_all

lemma outcomes_append [simp]: "outcomes (xs @ ys) = outcomes xs @ outcomes ys"
  by (induction xs rule: outcomes.induct) simp_all

lemma handed_out_append [simp]: "handed_out (xs @ ys) = handed_out xs @ handed_out ys"
  by (induction xs rule: handed_out.induct) (simp_all split: option.splits)

lemma print_each_lines [simp]:
  "printed (fst (print_each rs)) = fst (print_each rs)"
  "record_lines (fst (print_each rs)) = fst (print_each rs)"
  "fetched (fst (print_each rs)) = []"
  "outcomes (fst (print_each rs)) = []"
  "handed_out (fst (print_each rs)) = []"
  by (induction rs; auto split: sum.splits prod.splits)+

lemma well_keyed_strings:
  assumes "well_keyed r"
  shows "key_string (Keys r) ''Author'' = Inr (string_key (Keys r) ''Author'')"
    and "key_string (Keys r) ''Title'' = Inr (string_key (Keys r) ''Title'')"
  using assms
  by (auto simp: well_keyed_def key_string_def string_key_def
           split: option.splits attribute_value.splits)

lemma well_keyed_print_each:
  "list_all well_keyed rs \<Longrightarrow> print_each rs = (map record_line rs, None)"
  by (induction rs) (simp_all add: well_keyed_strings record_line_def)

lemma well_keyed_lines:
  assumes "list_all well_keyed rs"
  shows "printed_lines rs = map record_line rs" and "print_failure rs = None"
  using well_keyed_print_each [OF assms]
  by (simp_all add: printed_lines_def print_failure_def)

lemma print_failure_Nil [simp]: "print_failure [] = None"
  by (simp add: print_failure_def)

lemma found_simps [simp]:
  "printed (found k rs) = found k rs"
  "record_lines (found k rs) = printed_lines rs"
  "fetched (found k rs) = []"
  "outcomes (found k rs) = []"
  "handed_out (found k rs) = []"
  by (simp_all add: found_def printed_lines_def)

lemma found_Nil [simp]: "found k [] = []"
  by (simp add: found_def)

lemma found_well_keyed:
  "list_all well_keyed rs \<Longrightarrow>
   found k rs = (if rs = [] then [] else FoundRecords k # map record_line rs)"
  by (simp add: found_def well_keyed_lines)

lemma length_fetched: "length (fetched ev) = length (outcomes ev)"
  by (induction ev rule: fetched.induct) simp_all

lemma record_lines_founds:
  "list_all well_keyed (concat bs) \<Longrightarrow>
   record_lines (founds k bs) = map record_line (concat bs)"
  by (induction bs arbitrary: k) (simp_all add: well_keyed_lines)

lemma print_records_ok:
  assumes "print_failure (Records (get_records_res w)) = None"
  shows "print_records w =
           Inr (w\<lparr>records := Records (get_records_res w),
                   trace := trace w @ found (count w) (Records (get_records_res w))\<rparr>)"
  using assms
  by (cases "print_each (Records (get_records_res w))")
     (simp add: print_records_def print_failure_def printed_lines_def found_def Let_def)

lemma print_records_bad:
  assumes "print_failure (Records (get_records_res w)) = Some e"
  shows "print_records w =
           Inl (e, w\<lparr>records := Records (get_records_res w),
                      trace := trace w @ found (count w) (Records (get_records_res w))\<rparr>)"
proof -
  from assms have "Records (get_records_res w) \<noteq> []" by auto
  with assms show ?thesis
    by (cases "print_each (Records (get_records_res w))")
       (simp add: print_records_def print_failure_def printed_lines_def found_def Let_def)
qed

lemma while_loop_run:
  "loop w \<Longrightarrow>
   \<exists>ev. trace (final (while_loop c w)) = trace w @ ev \<and>
        loop_run c (sv w) (count w) (get_records_res w) ev
          (sv (final (while_loop c w))) (count (final (while_loop c w)))
          (get_records_res (final (while_loop c w))) (raised (while_loop c w))"
proof (induction c w rule: while_loop.induct)
  case (1 c w)
  note l = \<open>loop w\<close>
  let ?r = "get_records_res w"
  let ?p = "w\<lparr>records := Records ?r, trace := trace w @ found (count w) (Records ?r)\<rparr>"
  show ?case
  proof (cases "print_failure (Records ?r)")
    case (Some e)
    have "while_loop c w = Inl (e, ?p)"
      by (subst while_loop.simps) (simp add: l loop_body_def print_records_bad [OF Some])
    then show ?thesis
      using loop_run.bad_record [OF Some, of c "sv w" "count w"]
      by (simp add: final_def raised_def)
  next
    case ok: None
    note p = print_records_ok [OF ok]
    show ?thesis
    proof (cases "NextShardIterator ?r")
      case None
      then have b: "loop_body c w =
          Inr (?p\<lparr>trace := trace ?p @ [ShardClosed (count w)], loop := False\<rparr>)"
        by (simp add: loop_body_def p)
      have "while_loop c w =
          Inr (?p\<lparr>trace := trace ?p @ [ShardClosed (count w)], loop := False\<rparr>)"
        by (subst while_loop.simps, simp only: l b if_True sum.case,
            subst while_loop.simps, simp)
      then show ?thesis
        using loop_run.closed [OF ok None, of c "sv w" "count w"]
        by (simp add: final_def raised_def)
    next
      case (Some nxt)
      obtain res s1 where g: "get_records c (sv w) nxt = (res, s1)"
        by (cases "get_records c (sv w) nxt")
      show ?thesis
      proof (cases res)
        case (Inl e)
        have "while_loop c w =
            Inl (e, ?p\<lparr>count := count w + 1, next_iterator := nxt, sv := s1,
                       trace := trace ?p @ [GetRecords nxt (Inl e)]\<rparr>)"
          by (subst while_loop.simps) (simp add: l loop_body_def p Let_def Some g Inl)
        then show ?thesis
          using loop_run.failed [OF ok Some g [unfolded Inl], of "count w"]
          by (simp add: final_def raised_def)
      next
        case (Inr r')
        let ?w3 = "?p\<lparr>count := count w + 1, next_iterator := nxt, sv := s1,
                      get_records_res := r',
                      trace := trace ?p @ [GetRecords nxt (Inr r')]\<rparr>"
        show ?thesis
        proof (cases "count w + 1 > 150")
          case True
          have b: "loop_body c w =
              Inr (?w3\<lparr>trace := trace ?w3 @ [Print polling_limit_msg], loop := False\<rparr>)"
            using True by (simp add: loop_body_def p Let_def Some g Inr)
          have "while_loop c w =
              Inr (?w3\<lparr>trace := trace ?w3 @ [Print polling_limit_msg], loop := False\<rparr>)"
            by (subst while_loop.simps, simp only: l b if_True sum.case,
                subst while_loop.simps, simp)
          then show ?thesis
            using loop_run.limit [OF ok Some g [unfolded Inr] True]
            by (simp add: final_def raised_def)
        next
          case False
          have b: "loop_body c w = Inr ?w3"
            using False by (simp add: loop_body_def p Let_def Some g Inr)
          have u: "while_loop c w = while_loop c ?w3"
            by (subst while_loop.simps) (simp only: l b if_True sum.case)
          have l3: "loop ?w3" using l by simp
          from "1.IH" [OF l b l3] obtain ev where
            t: "trace (final (while_loop c ?w3)) = trace ?w3 @ ev" and
            r: "loop_run c s1 (count w + 1) r' ev (sv (final (while_loop c ?w3)))
                  (count (final (while_loop c ?w3)))
                  (get_records_res (final (while_loop c ?w3)))
                  (raised (while_loop c ?w3))"
            by auto
          show ?thesis
            using loop_run.again [OF ok Some g [unfolded Inr] False r] t
            by (simp add: u)
        qed
      qed
    qed
  qed
qed

lemma events_since_append: "trace w' = trace w @ ev \<Longrightarrow> events_since w w' = ev"
  by (simp add: events_since_def)


lemma read_shard_looped:
  assumes g: "get_shard_iterator c (sv w) (streamArn w) sid = (Inr it, s1)"
    and f: "get_records c s1 it = (Inr r, s2)"
  shows "\<exists>ev. trace (final (read_shard c sid w)) =
                trace w @ GetShardIterator sid (Inr it) # GetRecords it (Inr r) # Checking sid # ev \<and>
              loop_run c s2 0 r ev (sv (final (read_shard c sid w)))
                (count (final (read_shard c sid w))) (get_records_res (final (read_shard c sid w)))
                (raised (read_shard c sid w))"
proof -
  let ?w2 = "w\<lparr>shardId := sid, sv := s1, iterator := it,
                trace := trace w @ [GetShardIterator sid (Inr it)], sv := s2, get_records_res := r,
                trace := (trace w @ [GetShardIterator sid (Inr it)]) @ [GetRecords it (Inr r), Checking sid],
                loop := True, count := 0\<rparr>"
  have u: "read_shard c sid w = while_loop c ?w2"
    by (simp add: read_shard_def Let_def g f)
  have "loop ?w2" by simp
  from while_loop_run [OF this, of c] show ?thesis
    unfolding u by auto
qed

lemma read_shard_run:
  "\<exists>ev. trace (final (read_shard c sid w)) = trace w @ ev \<and>
        shard_run c (sv w) (streamArn w) sid ev (sv (final (read_shard c sid w)))
          (raised (read_shard c sid w))"
proof -
  obtain gi s1 where g: "get_shard_iterator c (sv w) (streamArn w) sid = (gi, s1)"
    by (cases "get_shard_iterator c (sv w) (streamArn w) sid")
  show ?thesis
  proof (cases gi)
    case (Inl e)
    then show ?thesis
      using shard_run.no_iterator [OF g [unfolded Inl]] g
      by (simp add: read_shard_def Let_def final_def raised_def)
  next
    case (Inr it)
    obtain res s2 where f: "get_records c s1 it = (res, s2)"
      by (cases "get_records c s1 it")
    show ?thesis
    proof (cases res)
      case (Inl e)
      then show ?thesis
        using shard_run.no_first_fetch [OF g [unfolded Inr] f [unfolded Inl]] g f Inr
        by (simp add: read_shard_def Let_def final_def raised_def)
    next
      case r: (Inr r)
      from read_shard_looped [OF g [unfolded Inr] f [unfolded r]] obtain ev where
        t: "trace (final (read_shard c sid w)) =
              trace w @ GetShardIterator sid (Inr it) # GetRecords it (Inr r) # Checking sid # ev"
        and l: "loop_run c s2 0 r ev (sv (final (read_shard c sid w)))
                  (count (final (read_shard c sid w)))
                  (get_records_res (final (read_shard c sid w))) (raised (read_shard c sid w))"
        by blast
      show ?thesis
        using shard_run.looped [OF g [unfolded Inr] f [unfolded r] l] t by blast
    qed
  qed
qed


lemma serves_run:
  assumes "loop_run c s k r ev s' k' rf err" and "serves c s r bs"
    and "k + int (length bs) \<le> 151" and "list_all well_keyed (concat bs)"
  shows "err = None \<and> printed ev = founds k bs @ [ShardClosed (k + int (length bs) - 1)] \<and>
         k' = k + int (length bs) - 1 \<and> Suc (length (fetched ev)) = length bs"
  using assms
proof (induction arbitrary: bs rule: loop_run.induct)
  case (bad_record r e s k)
  from bad_record.prems(1) obtain b rest where "bs = b # rest" "Records r = b"
    by (cases "(c, s, r, bs)" rule: serves.cases) simp_all
  with bad_record.prems(3) have "print_failure (Records r) = None"
    by (simp add: well_keyed_lines)
  with bad_record.hyps show ?case by simp
next
  case (closed r s k)
  from closed.prems(1) closed.hyps obtain b where "bs = [b]" "Records r = b"
    by (cases "(c, s, r, bs)" rule: serves.cases) simp_all
  then show ?case by simp
next
  case (failed r nxt s e s1 k)
  from failed.prems(1) failed.hyps have False
    by (cases "(c, s, r, bs)" rule: serves.cases) simp_all
  then show ?case ..
next
  case (limit r nxt s r' s1 k)
  from limit.prems(1,2) limit.hyps have False
    by (cases "(c, s, r, bs)" rule: serves.cases) simp_all
  then show ?case ..
next
  case (again r nxt s r' s1 k ev s' k' rf err)
  from again.prems(1) again.hyps(2,3) obtain b b' rest where
    bs: "bs = b # b' # rest" and b: "Records r = b" and s: "serves c s1 r' (b' # rest)"
    by (cases "(c, s, r, bs)" rule: serves.cases) simp_all
  from again.prems(2) bs have n: "k + 1 + int (length (b' # rest)) \<le> 151" by simp
  from again.prems(3) bs have w: "list_all well_keyed (concat (b' # rest))" by simp
  from again.IH [OF s n w] show ?case
    by (simp add: bs b)
qed

lemma opens_run:
  assumes "loop_run c s k r ev s' k' rf err" and "opens c s r bs"
    and "k + int (length bs) = 151" and "bs \<noteq> []" and "list_all well_keyed (concat bs)"
  shows "err = None \<and> printed ev = founds k bs @ [Print polling_limit_msg] \<and>
         k' = 151 \<and> length (fetched ev) = length bs \<and> after c s r (length bs) = Some rf"
  using assms
proof (induction arbitrary: bs rule: loop_run.induct)
  case (bad_record r e s k)
  from bad_record.prems(1,3) obtain b rest where "bs = b # rest" "Records r = b"
    by (cases bs) simp_all
  with bad_record.prems(4) have "print_failure (Records r) = None"
    by (simp add: well_keyed_lines)
  with bad_record.hyps show ?case by simp
next
  case (closed r s k)
  from closed.prems(1,3) closed.hyps have False
    by (cases bs) simp_all
  then show ?case ..
next
  case (failed r nxt s e s1 k)
  from failed.prems(1,3) failed.hyps have False
    by (cases bs) simp_all
  then show ?case ..
next
  case (limit r nxt s r' s1 k)
  from limit.prems(1,3) obtain b rest where bs: "bs = b # rest" and b: "Records r = b"
    by (cases bs) simp_all
  from limit.prems(2) bs have "k + (1 + int (length rest)) = 151" by simp
  with limit.hyps(4) have "int (length rest) \<le> 0" by linarith
  then have "rest = []" by simp
  with bs b limit.prems(2) limit.hyps(2,3) show ?case by simp
next
  case (again r nxt s r' s1 k ev s' k' rf err)
  from again.prems(1,3) again.hyps(2,3) obtain b rest where
    bs: "bs = b # rest" and b: "Records r = b" and s: "opens c s1 r' rest"
    by (cases bs) simp_all
  from again.prems(2) again.hyps(4) bs have n: "k + 1 + int (length rest) = 151" "rest \<noteq> []"
    by auto
  from again.prems(4) bs have w: "list_all well_keyed (concat rest)" by simp
  from again.IH [OF s n w] again.hyps(2,3) show ?case
    by (simp add: bs b)
qed

lemma no_records_well_keyed: "list_all well_keyed (concat (replicate n []))"
  by (simp add: list_all_iff)

lemma founds_empty [simp]: "founds k (replicate n []) = []"
  by (induction n arbitrary: k) simp_all

lemma closing_run:
  assumes "loop_run c s k r ev s' k' rf err"
    and "i < length (Inr r # outcomes ev)" and "(Inr r # outcomes ev) ! i = Inr q"
    and "NextShardIterator q = None"
  shows "Suc i = length (Inr r # outcomes ev) \<and>
         (k + int i \<le> 150 \<longrightarrow> list_all well_keyed (Records q) \<longrightarrow>
            err = None \<and>
            (\<exists>pre. ev = pre @ found (k + int i) (Records q) @ [ShardClosed (k + int i)]))"
  using assms
proof (induction arbitrary: i rule: loop_run.induct)
  case (bad_record r e s k)
  from bad_record.prems(1,2) have q: "i = 0" "q = r" by simp_all
  show ?case
  proof (intro conjI impI)
    show "Suc i = length (Inr r # outcomes (found k (Records r)))" using q by simp
  next
    assume "list_all well_keyed (Records q)"
    then have "print_failure (Records r) = None" using q by (simp add: well_keyed_lines)
    with bad_record.hyps show "Some e = None" by simp
  next
    assume "list_all well_keyed (Records q)"
    then have "print_failure (Records r) = None" using q by (simp add: well_keyed_lines)
    with bad_record.hyps show
      "\<exists>pre. found k (Records r) = pre @ found (k + int i) (Records q) @ [ShardClosed (k + int i)]"
      by simp
  qed
next
  case (closed r s k)
  then show ?case by simp
next
  case (failed r nxt s e s1 k)
  then show ?case by (cases i) simp_all
next
  case (limit r nxt s r' s1 k)
  then show ?case by (cases i) simp_all
next
  case (again r nxt s r' s1 k ev s' k' rf err)
  show ?case
  proof (cases i)
    case 0
    with again.prems again.hyps show ?thesis by simp
  next
    case (Suc j)
    with again.prems have j: "j < length (Inr r' # outcomes ev)"
      "(Inr r' # outcomes ev) ! j = Inr q" by simp_all
    note ih = again.IH [OF j again.prems(3)]
    from ih have l: "Suc j = length (Inr r' # outcomes ev)" by (rule conjunct1)
    from ih have
      p: "k + 1 + int j \<le> 150 \<longrightarrow> list_all well_keyed (Records q) \<longrightarrow>
            err = None \<and>
            (\<exists>pre. ev = pre @ found (k + 1 + int j) (Records q) @ [ShardClosed (k + 1 + int j)])"
      by (rule conjunct2)
    have e: "k + 1 + int j = k + int i" using Suc by simp
    show ?thesis
    proof (intro conjI impI)
      show "Suc i = length (Inr r # outcomes (found k (Records r) @ GetRecords nxt (Inr r') # ev))"
        using l Suc by simp
    next
      assume "k + int i \<le> 150" "list_all well_keyed (Records q)"
      with p [unfolded e] show "err = None" by blast
    next
      assume "k + int i \<le> 150" "list_all well_keyed (Records q)"
      with p [unfolded e] obtain pre where
        "ev = pre @ found (k + int i) (Records q) @ [ShardClosed (k + int i)]" by blast
      then have "found k (Records r) @ GetRecords nxt (Inr r') # ev =
                 (found k (Records r) @ GetRecords nxt (Inr r') # pre) @
                   found (k + int i) (Records q) @ [ShardClosed (k + int i)]"
        by simp
      then show "\<exists>pre. found k (Records r) @ GetRecords nxt (Inr r') # ev =
                   pre @ found (k + int i) (Records q) @ [ShardClosed (k + int i)]"
        by blast
    qed
  qed
qed

lemma handed_out_GetRecords:
  "handed_out (GetRecords it (Inr r) # ev) = cursor_of r @ handed_out ev"
  by (simp add: cursor_of_def split: option.splits)

lemma cursors_run:
  assumes "loop_run c s k r ev s' k' rf err"
  shows "fetched ev = take (length (fetched ev)) (cursor_of r @ handed_out ev)"
  using assms
proof (induction rule: loop_run.induct)
  case (again r nxt s r' s1 k ev s' k' rf err)
  have c: "cursor_of r = [nxt]" using again.hyps(2) by (simp add: cursor_of_def)
  have "take (length (fetched (found k (Records r) @ GetRecords nxt (Inr r') # ev)))
          (cursor_of r @ handed_out (found k (Records r) @ GetRecords nxt (Inr r') # ev)) =
        nxt # take (length (fetched ev)) (cursor_of r' @ handed_out ev)"
    by (simp add: c handed_out_GetRecords del: handed_out.simps)
  also have "\<dots> = nxt # fetched ev"
    using again.IH by simp
  finally show ?case by simp
qed (simp_all add: cursor_of_def)

lemma chain_run:
  assumes "loop_run c s k r ev s' k' rf err" and "j < length (fetched ev)"
  shows "\<exists>q. (Inr r # outcomes ev) ! j = Inr q \<and> NextShardIterator q = Some (fetched ev ! j)"
  using assms
proof (induction arbitrary: j rule: loop_run.induct)
  case (again r nxt s r' s1 k ev s' k' rf err)
  then show ?case by (cases j) simp_all
qed simp_all

lemma shard_serves_iff:
  "shard_serves c s arn sid bs =
     (\<exists>it s1 r s2. get_shard_iterator c s arn sid = (Inr it, s1) \<and>
        get_records c s1 it = (Inr r, s2) \<and> serves c s2 r bs)"
proof -
  obtain gi s1 where g: "get_shard_iterator c s arn sid = (gi, s1)"
    by (cases "get_shard_iterator c s arn sid")
  show ?thesis
  proof (cases gi)
    case (Inl e)
    with g show ?thesis by (simp add: shard_serves_def)
  next
    case (Inr it)
    obtain res s2 where f: "get_records c s1 it = (res, s2)" by (cases "get_records c s1 it")
    show ?thesis by (cases res) (simp_all add: shard_serves_def g Inr f)
  qed
qed

lemma shard_opens_iff:
  "shard_opens c s arn sid bs =
     (\<exists>it s1 r s2. get_shard_iterator c s arn sid = (Inr it, s1) \<and>
        get_records c s1 it = (Inr r, s2) \<and> opens c s2 r bs)"
proof -
  obtain gi s1 where g: "get_shard_iterator c s arn sid = (gi, s1)"
    by (cases "get_shard_iterator c s arn sid")
  show ?thesis
  proof (cases gi)
    case (Inl e)
    with g show ?thesis by (simp add: shard_opens_def)
  next
    case (Inr it)
    obtain res s2 where f: "get_records c s1 it = (res, s2)" by (cases "get_records c s1 it")
    show ?thesis by (cases res) (simp_all add: shard_opens_def g Inr f)
  qed
qed

lemma while_loop_exit: "while_loop c w = Inr w' \<Longrightarrow> \<not> loop w'"
proof (induction c w rule: while_loop.induct)
  case (1 c w)
  show ?case
  proof (cases "loop w")
    case True
    show ?thesis
    proof (cases "loop_body c w")
      case (Inl x)
      with True "1.prems" show ?thesis by (subst (asm) while_loop.simps) simp
    next
      case (Inr w2)
      with True "1.prems" have "while_loop c w2 = Inr w'"
        by (subst (asm) while_loop.simps) simp
      from "1.IH" [OF True Inr this] show ?thesis .
    qed
  next
    case False
    with "1.prems" show ?thesis by (subst (asm) while_loop.simps) simp
  qed
qed

lemma read_shard_exit: "raised (read_shard c sid w) = None \<Longrightarrow> \<not> loop (final (read_shard c sid w))"
  by (auto simp: read_shard_def Let_def raised_def final_def
           split: prod.splits sum.splits dest: while_loop_exit)

lemma record_lines_printed: "record_lines (printed ev) = record_lines ev"
  by (induction ev rule: printed.induct) simp_all

lemma read_shard_serves:
  assumes "shard_serves c (sv w) (streamArn w) sid bs" and "length bs \<le> 151"
    and "list_all well_keyed (concat bs)"
  shows "raised (read_shard c sid w) = None \<and>
         printed (events_since w (final (read_shard c sid w))) =
           Checking sid # founds 0 bs @ [ShardClosed (int (length bs) - 1)] \<and>
         count (final (read_shard c sid w)) = int (length bs) - 1 \<and>
         length (fetched (events_since w (final (read_shard c sid w)))) = length bs"
proof -
  from assms(1) obtain it s1 r s2 where
    g: "get_shard_iterator c (sv w) (streamArn w) sid = (Inr it, s1)" and
    f: "get_records c s1 it = (Inr r, s2)" and s: "serves c s2 r bs"
    unfolding shard_serves_iff by blast
  from read_shard_looped [OF g f] obtain ev where
    t: "trace (final (read_shard c sid w)) =
          trace w @ GetShardIterator sid (Inr it) # GetRecords it (Inr r) # Checking sid # ev" and
    l: "loop_run c s2 0 r ev (sv (final (read_shard c sid w)))
          (count (final (read_shard c sid w))) (get_records_res (final (read_shard c sid w)))
          (raised (read_shard c sid w))"
    by blast
  from assms(2) have "0 + int (length bs) \<le> 151" by simp
  from serves_run [OF l s this assms(3)] events_since_append [OF t] show ?thesis by simp
qed

lemma read_shard_opens:
  assumes "shard_opens c (sv w) (streamArn w) sid bs" and "length bs = 151"
    and "list_all well_keyed (concat bs)"
  shows "raised (read_shard c sid w) = None \<and>
         printed (events_since w (final (read_shard c sid w))) =
           Checking sid # founds 0 bs @ [Print polling_limit_msg] \<and>
         count (final (read_shard c sid w)) = 151 \<and>
         length (fetched (events_since w (final (read_shard c sid w)))) = 152 \<and>
         shard_after c (sv w) (streamArn w) sid 151 =
           Some (get_records_res (final (read_shard c sid w)))"
proof -
  from assms(1) obtain it s1 r s2 where
    g: "get_shard_iterator c (sv w) (streamArn w) sid = (Inr it, s1)" and
    f: "get_records c s1 it = (Inr r, s2)" and s: "opens c s2 r bs"
    unfolding shard_opens_iff by blast
  from read_shard_looped [OF g f] obtain ev where
    t: "trace (final (read_shard c sid w)) =
          trace w @ GetShardIterator sid (Inr it) # GetRecords it (Inr r) # Checking sid # ev" and
    l: "loop_run c s2 0 r ev (sv (final (read_shard c sid w)))
          (count (final (read_shard c sid w))) (get_records_res (final (read_shard c sid w)))
          (raised (read_shard c sid w))"
    by blast
  from assms(2) have n: "0 + int (length bs) = 151" "bs \<noteq> []" by auto
  from opens_run [OF l s n assms(3)] events_since_append [OF t] assms(2) show ?thesis
    by (simp add: shard_after_def g f)
qed

lemma never_closes_opens:
  assumes "never_closes c" and "Records r = []" and "NextShardIterator r \<noteq> None"
  shows "opens c s r (replicate n [])"
  using assms(2,3)
proof (induction n arbitrary: s r)
  case 0
  show ?case by simp
next
  case (Suc n)
  from Suc.prems(2) obtain nxt where nxt: "NextShardIterator r = Some nxt" by auto
  obtain res s1 where g: "get_records c s nxt = (res, s1)" by (cases "get_records c s nxt")
  from assms(1) [unfolded never_closes_def, rule_format, of s nxt] g obtain r' where
    r': "res = Inr r'" "Records r' = []" "NextShardIterator r' \<noteq> None"
    by (cases res) auto
  from Suc.IH [OF r'(2,3)] show ?case
    by (simp add: Suc.prems(1) nxt g r'(1))
qed

lemma never_closes_shard_opens:
  assumes "never_closes c" and "get_shard_iterator c s arn sid = (Inr it, s1)"
  shows "shard_opens c s arn sid (replicate n [])"
proof -
  obtain res s2 where g: "get_records c s1 it = (res, s2)" by (cases "get_records c s1 it")
  from assms(1) [unfolded never_closes_def, rule_format, of s1 it] g obtain r where
    r: "res = Inr r" "Records r = []" "NextShardIterator r \<noteq> None"
    by (cases res) auto
  from never_closes_opens [OF assms(1) r(2,3)] show ?thesis
    by (simp add: shard_opens_def assms(2) g r(1))
qed

lemma get_records_scripted:
  "length it < length bs \<Longrightarrow>
   get_records (scripted bs) s it = (Inr (scripted_response bs it), s)"
  by (simp add: scripted_def)

lemma opens_scripted:
  "length it + n < length bs \<Longrightarrow>
   opens (scripted bs) s (scripted_response bs it) (take n (drop (length it) bs))"
proof (induction n arbitrary: it s)
  case 0
  show ?case by simp
next
  case (Suc n)
  from Suc.prems have l: "length it < length bs" "Suc (length it) < length bs"
    "length (CHR ''i'' # it) + n < length bs" by simp_all
  have t: "take (Suc n) (drop (length it) bs) =
             bs ! length it # take n (drop (length (CHR ''i'' # it)) bs)"
    using l(1) by (simp add: Cons_nth_drop_Suc [symmetric])
  have r: "Records (scripted_response bs it) = bs ! length it"
    "NextShardIterator (scripted_response bs it) = Some (CHR ''i'' # it)"
    using l(2) by (simp_all add: scripted_response_def)
  have g: "get_records (scripted bs) s (CHR ''i'' # it) =
             (Inr (scripted_response bs (CHR ''i'' # it)), s)"
    using l(2) by (simp add: get_records_scripted)
  from Suc.IH [OF l(3), of s] show ?case
    unfolding t by (simp add: r g)
qed

lemma after_scripted:
  "length it + n < length bs \<Longrightarrow>
   after (scripted bs) s (scripted_response bs it) n =
     Some (scripted_response bs (replicate n (CHR ''i'') @ it))"
proof (induction n arbitrary: it s)
  case 0
  show ?case by simp
next
  case (Suc n)
  from Suc.prems have l: "Suc (length it) < length bs"
    "length (CHR ''i'' # it) + n < length bs" by simp_all
  have r: "NextShardIterator (scripted_response bs it) = Some (CHR ''i'' # it)"
    using l(1) by (simp add: scripted_response_def)
  have g: "get_records (scripted bs) s (CHR ''i'' # it) =
             (Inr (scripted_response bs (CHR ''i'' # it)), s)"
    using l(1) by (simp add: get_records_scripted)
  from Suc.IH [OF l(2), of s] show ?case
    by (simp add: r g replicate_app_Cons_same)
qed

lemma serves_step:
  "serves c s r (b # bs) =
     (Records r = b \<and>
      (if bs = [] then NextShardIterator r = None
       else (case NextShardIterator r of
               None \<Rightarrow> False
             | Some nxt \<Rightarrow>
                 (case get_records c s nxt of
                    (Inl e, s1) \<Rightarrow> False
                  | (Inr r', s1) \<Rightarrow> serves c s1 r' bs))))"
  by (cases bs) auto

lemma serves_scripted:
  "n = length bs - length it \<Longrightarrow> length it < length bs \<Longrightarrow>
   serves (scripted bs) s (scripted_response bs it) (drop (length it) bs)"
proof (induction n arbitrary: it s)
  case 0
  then show ?case by simp
next
  case (Suc n)
  have d: "drop (length it) bs = bs ! length it # drop (length (CHR ''i'' # it)) bs"
    using Suc.prems(2) by (simp add: Cons_nth_drop_Suc [symmetric])
  show ?case
  proof (cases "Suc (length it) < length bs")
    case True
    have r: "Records (scripted_response bs it) = bs ! length it"
      "NextShardIterator (scripted_response bs it) = Some (CHR ''i'' # it)"
      using True by (simp_all add: scripted_response_def)
    have g: "get_records (scripted bs) s (CHR ''i'' # it) =
               (Inr (scripted_response bs (CHR ''i'' # it)), s)"
      using True by (simp add: get_records_scripted)
    have "n = length bs - length (CHR ''i'' # it)" "length (CHR ''i'' # it) < length bs"
      using Suc.prems True by simp_all
    from Suc.IH [OF this, of s] show ?thesis
      unfolding d serves_step using True by (simp add: r g)
  next
    case False
    then have r: "Records (scripted_response bs it) = bs ! length it"
      "NextShardIterator (scripted_response bs it) = None"
      by (simp_all add: scripted_response_def)
    from False show ?thesis
      unfolding d serves_step by (simp add: r)
  qed
qed

lemma shard_serves_scripted: "bs \<noteq> [] \<Longrightarrow> shard_serves (scripted bs) s arn sid bs"
proof -
  assume "bs \<noteq> []"
  then have l: "length ([] :: string) < length bs" by simp
  from serves_scripted [OF refl l, of s] get_records_scripted [OF l, of s] show ?thesis
    by (simp add: shard_serves_iff) (simp add: scripted_def)
qed

lemma shard_opens_scripted:
  "n < length bs \<Longrightarrow> shard_opens (scripted bs) s arn sid (take n bs)"
proof -
  assume "n < length bs"
  then have l: "length ([] :: string) + n < length bs" "length ([] :: string) < length bs"
    by auto
  from opens_scripted [OF l(1), of s] get_records_scripted [OF l(2), of s] show ?thesis
    by (simp add: shard_opens_iff) (simp add: scripted_def)
qed

lemma shard_after_scripted:
  "n < length bs \<Longrightarrow>
   shard_after (scripted bs) s arn sid n = Some (scripted_response bs (replicate n (CHR ''i'')))"
proof -
  assume "n < length bs"
  then have l: "length ([] :: string) + n < length bs" "length ([] :: string) < length bs"
    by auto
  from after_scripted [OF l(1), of s] get_records_scripted [OF l(2), of s] show ?thesis
    by (simp add: shard_after_def) (simp add: scripted_def)
qed

lemma never_closes_idle: "never_closes idle"
  by (simp add: never_closes_def idle_def)

lemma length_concat_singletons: "length (concat (replicate n [x])) = n"
  by (induction n) simp_all

lemma last_response_run:
  assumes "loop_run c s k r ev s' k' rf err" and "err = None"
  shows "last (Inr r # outcomes ev) = Inr rf"
  using assms
  by (induction rule: loop_run.induct) simp_all

lemma read_shard_closing:
  assumes "i < length (outcomes (events_since w (final (read_shard c sid w))))"
    and "outcomes (events_since w (final (read_shard c sid w))) ! i = Inr q"
    and "NextShardIterator q = None"
  shows "Suc i = length (outcomes (events_since w (final (read_shard c sid w)))) \<and>
         (i \<le> 150 \<longrightarrow> list_all well_keyed (Records q) \<longrightarrow>
            raised (read_shard c sid w) = None \<and>
            (\<exists>pre. events_since w (final (read_shard c sid w)) =
                     pre @ found (int i) (Records q) @ [ShardClosed (int i)]))"
proof -
  let ?X = "read_shard c sid w"
  from read_shard_run [of c sid w] obtain ev where
    t: "trace (final ?X) = trace w @ ev" and
    r: "shard_run c (sv w) (streamArn w) sid ev (sv (final ?X)) (raised ?X)"
    by blast
  have e: "events_since w (final ?X) = ev" by (rule events_since_append [OF t])
  from r show ?thesis
  proof (cases rule: shard_run.cases)
    case (no_iterator e)
    with assms(1) e show ?thesis by simp
  next
    case (no_first_fetch it s1 e)
    with assms(1,2) e show ?thesis by simp
  next
    case (looped it s1 r s2 ev' k' rf)
    from assms(1,2) e looped(1) have
      i: "i < length (Inr r # outcomes ev')" "(Inr r # outcomes ev') ! i = Inr q"
      by simp_all
    note c = closing_run [OF looped(4) i assms(3)]
    from c have l: "Suc i = length (Inr r # outcomes ev')" by (rule conjunct1)
    from c have p: "0 + int i \<le> 150 \<longrightarrow> list_all well_keyed (Records q) \<longrightarrow>
        raised ?X = None \<and>
        (\<exists>pre. ev' = pre @ found (0 + int i) (Records q) @ [ShardClosed (0 + int i)])"
      by (rule conjunct2)
    show ?thesis
    proof (intro conjI impI)
      show "Suc i = length (outcomes (events_since w (final ?X)))"
        using l e looped(1) by simp
    next
      assume "i \<le> 150" "list_all well_keyed (Records q)"
      with p show "raised ?X = None" by simp
    next
      assume "i \<le> 150" "list_all well_keyed (Records q)"
      with p obtain pre where "ev' = pre @ found (int i) (Records q) @ [ShardClosed (int i)]"
        by auto
      then have "events_since w (final ?X) =
          (GetShardIterator sid (Inr it) # GetRecords it (Inr r) # Checking sid # pre) @
            found (int i) (Records q) @ [ShardClosed (int i)]"
        using e looped(1) by simp
      then show "\<exists>pre. events_since w (final ?X) =
                   pre @ found (int i) (Records q) @ [ShardClosed (int i)]"
        by blast
    qed
  qed
qed

lemma read_shard_last_response:
  assumes "raised (read_shard c sid w) = None"
  shows "last (outcomes (events_since w (final (read_shard c sid w)))) =
           Inr (get_records_res (final (read_shard c sid w)))"
proof -
  let ?X = "read_shard c sid w"
  obtain gi s1 where g: "get_shard_iterator c (sv w) (streamArn w) sid = (gi, s1)"
    by (cases "get_shard_iterator c (sv w) (streamArn w) sid")
  show ?thesis
  proof (cases gi)
    case (Inl e)
    with g assms show ?thesis by (simp add: read_shard_def Let_def raised_def)
  next
    case (Inr it)
    obtain res s2 where f: "get_records c s1 it = (res, s2)" by (cases "get_records c s1 it")
    show ?thesis
    proof (cases res)
      case (Inl e)
      with g Inr f assms show ?thesis by (simp add: read_shard_def Let_def raised_def)
    next
      case r: (Inr r)
      from read_shard_looped [OF g [unfolded Inr] f [unfolded r]] obtain ev where
        t: "trace (final ?X) =
              trace w @ GetShardIterator sid (Inr it) # GetRecords it (Inr r) # Checking sid # ev"
        and l: "loop_run c s2 0 r ev (sv (final ?X)) (count (final ?X))
                  (get_records_res (final ?X)) (raised ?X)"
        by blast
      from last_response_run [OF l assms] events_since_append [OF t] show ?thesis by simp
    qed
  qed
qed

lemma read_shard_cursors:
  "fetched (events_since w (final (read_shard c sid w))) =
     take (length (fetched (events_since w (final (read_shard c sid w)))))
       (handed_out (events_since w (final (read_shard c sid w))))"
proof -
  let ?X = "read_shard c sid w"
  from read_shard_run [of c sid w] obtain ev where
    t: "trace (final ?X) = trace w @ ev" and
    r: "shard_run c (sv w) (streamArn w) sid ev (sv (final ?X)) (raised ?X)"
    by blast
  have e: "events_since w (final ?X) = ev" by (rule events_since_append [OF t])
  from r have "fetched ev = take (length (fetched ev)) (handed_out ev)"
  proof (cases rule: shard_run.cases)
    case (looped it s1 r s2 ev' k' rf)
    have h: "handed_out ev = it # (cursor_of r @ handed_out ev')"
      unfolding looped(1) by (simp add: cursor_of_def split: option.splits)
    have f: "fetched ev = it # fetched ev'"
      unfolding looped(1) by simp
    have "take (length (fetched ev)) (handed_out ev) =
            it # take (length (fetched ev')) (cursor_of r @ handed_out ev')"
      unfolding h f by simp
    also have "\<dots> = it # fetched ev'"
      using cursors_run [OF looped(4)] by simp
    finally show ?thesis unfolding f by simp
  qed simp_all
  then show ?thesis unfolding e .
qed

lemma read_shard_chain:
  assumes "Suc j < length (fetched (events_since w (final (read_shard c sid w))))"
  shows "\<exists>q. outcomes (events_since w (final (read_shard c sid w))) ! j = Inr q \<and>
             NextShardIterator q =
               Some (fetched (events_since w (final (read_shard c sid w))) ! Suc j)"
proof -
  let ?X = "read_shard c sid w"
  from read_shard_run [of c sid w] obtain ev where
    t: "trace (final ?X) = trace w @ ev" and
    r: "shard_run c (sv w) (streamArn w) sid ev (sv (final ?X)) (raised ?X)"
    by blast
  have e: "events_since w (final ?X) = ev" by (rule events_since_append [OF t])
  from r assms [unfolded e] have
    "\<exists>q. outcomes ev ! j = Inr q \<and> NextShardIterator q = Some (fetched ev ! Suc j)"
  proof (cases rule: shard_run.cases)
    case (looped it s1 r s2 ev' k' rf)
    with assms [unfolded e] have "j < length (fetched ev')" by simp
    from chain_run [OF looped(4) this] show ?thesis unfolding looped(1) by simp
  qed simp_all
  then show ?thesis unfolding e .
qed

lemma read_shard_first_event:
  "\<exists>res. take 1 (events_since w (final (read_shard c sid w))) = [GetShardIterator sid res]"
proof -
  let ?X = "read_shard c sid w"
  from read_shard_run [of c sid w] obtain ev where
    t: "trace (final ?X) = trace w @ ev" and
    r: "shard_run c (sv w) (streamArn w) sid ev (sv (final ?X)) (raised ?X)"
    by blast
  have e: "events_since w (final ?X) = ev" by (rule events_since_append [OF t])
  from r show ?thesis unfolding e by (cases rule: shard_run.cases) simp_all
qed




lemma demo_events:
  "events_since (start ()) (final (read_shard (scripted demo_batches) ''shard-0'' (start ()))) =
     [GetShardIterator ''shard-0'' (Inr []),
      GetRecords [] (Inr \<lparr>Records = [sample_record], NextShardIterator = Some ''i''\<rparr>),
      Checking ''shard-0'',
      FoundRecords 0,
      record_line sample_record,
      GetRecords ''i'' (Inr \<lparr>Records = [], NextShardIterator = Some ''ii''\<rparr>),
      GetRecords ''ii''
        (Inr \<lparr>Records = [other_record, sample_record], NextShardIterator = None\<rparr>),
      FoundRecords 2,
      record_line other_record,
      record_line sample_record,
      ShardClosed 2]"
  by (simp add: read_shard_def while_loop.simps loop_body_def print_records_def
      key_string_def record_line_def string_key_def sample_record_def other_record_def
      scripted_def scripted_response_def start_def demo_batches_def Let_def
      events_since_def final_def)


lemma long_scripted_run:
  assumes "length bs = 152" and "list_all well_keyed (concat (take 151 bs))"
  shows "raised (read_shard (scripted bs) sid (start s)) = None \<and>
         printed (events_since (start s) (final (read_shard (scripted bs) sid (start s)))) =
           Checking sid # founds 0 (take 151 bs) @ [Print polling_limit_msg] \<and>
         length (outcomes (events_since (start s)
           (final (read_shard (scripted bs) sid (start s))))) = 152 \<and>
         last (outcomes (events_since (start s)
           (final (read_shard (scripted bs) sid (start s))))) =
           Inr \<lparr>Records = bs ! 151, NextShardIterator = None\<rparr>"
proof -
  let ?X = "read_shard (scripted bs) sid (start s)"
  from assms(1) have l: "151 < length bs" by simp
  have o: "shard_opens (scripted bs) (sv (start s)) (streamArn (start s)) sid (take 151 bs)"
    by (rule shard_opens_scripted [OF l])
  have n: "length (take 151 bs) = 151" using assms(1) by simp
  note r = read_shard_opens [OF o n assms(2)]
  from r have e: "raised ?X = None" by (rule conjunct1)
  from r shard_after_scripted [OF l, of "sv (start s)" "streamArn (start s)" sid]
  have "get_records_res (final ?X) = scripted_response bs (replicate 151 (CHR ''i''))"
    by simp
  then have "get_records_res (final ?X) = \<lparr>Records = bs ! 151, NextShardIterator = None\<rparr>"
    using assms(1) by (simp add: scripted_response_def)
  with read_shard_last_response [OF e] r show ?thesis
    by (simp add: length_fetched [symmetric])
qed

lemma assign_versioned:
  "assign [(''Rating'', N 1), (''Version'', N 3)] i = i(''Rating'' \<mapsto> N 1, ''Version'' \<mapsto> N 3)"
  by (simp add: assign_def)

lemma first_update:
  assumes "db nb = Some t" and "t (''Herman Melville'', ''Moby Dick'') = Some i"
    and "i ''Version'' = Some (N 2)"
  shows "conditional_update_cell table_service nb =
           Inr (nb\<lparr>db := Some (t((''Herman Melville'', ''Moby Dick'') \<mapsto>
                               i(''Rating'' \<mapsto> N 1, ''Version'' \<mapsto> N 3))),
                   updated_item := i(''Rating'' \<mapsto> N 1, ''Version'' \<mapsto> N 3),
                   out := out nb @ [PrintItem (i(''Rating'' \<mapsto> N 1, ''Version'' \<mapsto> N 3))]\<rparr>)"
  using assms
  by (simp add: conditional_update_cell_def table_service_def service_update_item_def
      versioned_update_def accepted_def holds_def assign_versioned Let_def)

lemma second_update:
  assumes "db nb = Some t" and "t (''Herman Melville'', ''Moby Dick'') = Some i"
    and "i ''Version'' = Some (N 3)"
  shows "update_item table_service (db nb) versioned_update =
           (Inl (ClientError ''ConditionalCheckFailedException''), db nb) \<and>
         repeated_update_cell table_service nb =
           Inr (nb\<lparr>out := out nb @
                  [Print ''Exception Condition Triggered as expected'',
                   Print ''Version attribute is not the expected value ... the item must have been updated'']\<rparr>)"
  using assms
  by (simp add: repeated_update_cell_def table_service_def service_update_item_def
      versioned_update_def accepted_def holds_def say_def)

lemma never_closes_fetch:
  assumes "never_closes c" and "get_records c s it = (res, s1)"
  shows "empty_open res"
  using assms(1) [unfolded never_closes_def, rule_format, of s it] assms(2)
  by (cases res) (simp_all add: empty_open_def)

lemma never_closes_outcomes:
  assumes "loop_run c s k r ev s' k' rf err" and "never_closes c"
  shows "list_all empty_open (outcomes ev)"
  using assms
proof (induction rule: loop_run.induct)
  case (bad_record r e s k)
  show ?case by simp
next
  case (closed r s k)
  show ?case by simp
next
  case (failed r nxt s e s1 k)
  from never_closes_fetch [OF failed.prems failed.hyps(3)] show ?case by simp
next
  case (limit r nxt s r' s1 k)
  from never_closes_fetch [OF limit.prems limit.hyps(3)] show ?case by simp
next
  case (again r nxt s r' s1 k ev s' k' rf err)
  from never_closes_fetch [OF again.prems again.hyps(3)] again.IH [OF again.prems]
  show ?case by simp
qed

lemma read_shard_never_closes_outcomes:
  assumes "never_closes c"
  shows "list_all empty_open (outcomes (events_since w (final (read_shard c sid w))))"
proof -
  let ?X = "read_shard c sid w"
  from read_shard_run [of c sid w] obtain ev where
    t: "trace (final ?X) = trace w @ ev" and
    r: "shard_run c (sv w) (streamArn w) sid ev (sv (final ?X)) (raised ?X)"
    by blast
  have e: "events_since w (final ?X) = ev" by (rule events_since_append [OF t])
  from r have "list_all empty_open (outcomes ev)"
  proof (cases rule: shard_run.cases)
    case (no_iterator e)
    then show ?thesis by simp
  next
    case (no_first_fetch it s1 e)
    with never_closes_fetch [OF assms no_first_fetch(4)] show ?thesis by simp
  next
    case (looped it s1 r s2 ev' k' rf)
    with never_closes_fetch [OF assms looped(3)] never_closes_outcomes [OF looped(4) assms]
    show ?thesis by simp
  qed
  then show ?thesis unfolding e .
qed

lemma opens_by_invariant:
  assumes step: "\<And>s it. I it \<Longrightarrow>
            \<exists>nxt s1. get_records c s it =
                        (Inr \<lparr>Records = [], NextShardIterator = Some nxt\<rparr>, s1) \<and> I nxt"
    and "Records r = []" and "NextShardIterator r = Some nxt" and "I nxt"
  shows "opens c s r (replicate n [])"
  using assms(2-)
proof (induction n arbitrary: s r nxt)
  case 0
  show ?case by simp
next
  case (Suc n)
  from step [OF Suc.prems(3), of s] obtain nxt' s1 where
    g: "get_records c s nxt = (Inr \<lparr>Records = [], NextShardIterator = Some nxt'\<rparr>, s1)"
    and i: "I nxt'"
    by blast
  have "opens c s1 \<lparr>Records = [], NextShardIterator = Some nxt'\<rparr> (replicate n [])"
    by (rule Suc.IH [OF _ _ i]) simp_all
  then show ?case by (simp add: Suc.prems(1,2) g)
qed

lemma two_shards_open:
  "shard_opens two_shards s arn ''open-shard'' (replicate n [])"
proof -
  let ?I = "\<lambda>it. it \<noteq> [] \<and> hd it = CHR ''o''"
  have step: "\<exists>nxt s1. get_records two_shards s it =
                (Inr \<lparr>Records = [], NextShardIterator = Some nxt\<rparr>, s1) \<and> ?I nxt"
    if "?I it" for s :: 'a and it
    using that by (simp add: two_shards_def)
  have "opens two_shards s \<lparr>Records = [], NextShardIterator = Some (''open-shard'' @ ''i'')\<rparr>
          (replicate n [])"
    by (rule opens_by_invariant [where I = ?I and nxt = "''open-shard'' @ ''i''", OF step])
       simp_all
  then show ?thesis
    by (simp add: shard_opens_iff two_shards_def)
qed


lemma numbered_lines [simp]: "numbered n (fst (print_each rs))"
  by (induction rs) (auto split: sum.splits prod.splits)

lemma numbered_found [simp]: "numbered k (found k rs)"
  by (simp add: found_def printed_lines_def)






text \<open>
  A record without the string keys the cell reads ends the walk: the header and the lines
  of the records before it are printed, then the \<open>KeyError\<close> leaves the loop, and nothing
  is fetched or printed after it.
\<close>

lemma foreign_record_raises:
  "raised (read_shard (scripted [[sample_record, foreign_record, other_record], []])
             ''shard-0'' (start ())) = Some (KeyError ''Author'') \<and>
   printed (events_since (start ())
     (final (read_shard (scripted [[sample_record, foreign_record, other_record], []])
               ''shard-0'' (start ())))) =
     [Checking ''shard-0'', FoundRecords 0, RecordLine ''INSERT'' ''Jill'' ''Ice Cream Part 2''] \<and>
   length (fetched (events_since (start ())
     (final (read_shard (scripted [[sample_record, foreign_record, other_record], []])
               ''shard-0'' (start ()))))) = 1"
  by (simp add: read_shard_def while_loop.simps loop_body_def print_records_def
      key_string_def sample_record_def other_record_def foreign_record_def
      scripted_def scripted_response_def start_def Let_def
      events_since_def final_def raised_def)

lemma failing_run:
  assumes "loop_run c s k r ev s' k' rf err"
    and "i < length (outcomes ev)" and "outcomes ev ! i = Inl e"
  shows "err = Some e \<and> Suc i = length (outcomes ev) \<and>
         (\<exists>pre it. ev = pre @ [GetRecords it (Inl e)])"
  using assms
proof (induction arbitrary: i rule: loop_run.induct)
  case (bad_record r e' s k)
  then show ?case by simp
next
  case (closed r s k)
  then show ?case by simp
next
  case (failed r nxt s e' s1 k)
  then show ?case by simp
next
  case (limit r nxt s r' s1 k)
  then show ?case by simp
next
  case (again r nxt s r' s1 k ev s' k' rf err)
  from again.prems obtain j where j: "i = Suc j" by (cases i) simp_all
  with again.prems have "j < length (outcomes ev)" "outcomes ev ! j = Inl e" by simp_all
  from again.IH [OF this] obtain pre it where
    "err = Some e" "Suc j = length (outcomes ev)" "ev = pre @ [GetRecords it (Inl e)]"
    by blast
  then have "err = Some e"
    "Suc i = length (outcomes (found k (Records r) @ GetRecords nxt (Inr r') # ev))"
    "found k (Records r) @ GetRecords nxt (Inr r') # ev =
       (found k (Records r) @ GetRecords nxt (Inr r') # pre) @ [GetRecords it (Inl e)]"
    using j by simp_all
  then show ?case by blast
qed

text \<open>
  A fetch that raises ends the walk of the shard: the exception is the outcome of
  \<open>read_shard\<close>, and the failed call is its last event, so the fetch is not tried again.
\<close>

lemma fetch_failure_leaves_walk:
  assumes "i < length (outcomes (events_since w (final (read_shard c sid w))))"
    and "outcomes (events_since w (final (read_shard c sid w))) ! i = Inl e"
  shows "raised (read_shard c sid w) = Some e \<and>
         Suc i = length (outcomes (events_since w (final (read_shard c sid w)))) \<and>
         (\<exists>pre it. events_since w (final (read_shard c sid w)) = pre @ [GetRecords it (Inl e)])"
proof -
  let ?X = "read_shard c sid w"
  from read_shard_run [of c sid w] obtain ev where
    t: "trace (final ?X) = trace w @ ev" and
    r: "shard_run c (sv w) (streamArn w) sid ev (sv (final ?X)) (raised ?X)"
    by blast
  have e: "events_since w (final ?X) = ev" by (rule events_since_append [OF t])
  from r have "raised ?X = Some e \<and> Suc i = length (outcomes ev) \<and>
               (\<exists>pre it. ev = pre @ [GetRecords it (Inl e)])"
  proof (cases rule: shard_run.cases)
    case (no_iterator e')
    with assms [unfolded e] show ?thesis by simp
  next
    case (no_first_fetch it s1 e')
    with assms [unfolded e] have "e' = e" "i = 0" by simp_all
    with no_first_fetch have "raised ?X = Some e" "Suc i = length (outcomes ev)"
      "ev = [GetShardIterator sid (Inr it)] @ [GetRecords it (Inl e)]"
      by simp_all
    then show ?thesis by blast
  next
    case (looped it s1 r s2 ev' k' rf)
    from assms [unfolded e] looped(1) obtain j where j: "i = Suc j" by (cases i) simp_all
    with assms [unfolded e] looped(1) have "j < length (outcomes ev')" "outcomes ev' ! j = Inl e"
      by simp_all
    from failing_run [OF looped(4) this] obtain pre it' where
      "raised ?X = Some e" "Suc j = length (outcomes ev')" "ev' = pre @ [GetRecords it' (Inl e)]"
      by blast
    then have "raised ?X = Some e" "Suc i = length (outcomes ev)"
      "ev = (GetShardIterator sid (Inr it) # GetRecords it (Inr r) # Checking sid # pre) @
              [GetRecords it' (Inl e)]"
      using j looped(1) by simp_all
    then show ?thesis by blast
  qed
  then show ?thesis unfolding e .
qed

section \<open>The claims\<close>

text \<open>
  C1 (as amended). For a shard whose records the service returns as \<open>B\<close> batches \<open>bs\<close>, the
  last response being the one without a next cursor, with \<open>B \<le> 151\<close> and every record
  carrying the string keys \<open>Author\<close> and \<open>Title\<close>: the walk of that shard raises nothing,
  the record lines it prints are exactly the records of \<open>concat bs\<close>, each with its event
  name and its two keys, in fetch order, and altogether it prints the shard line, for
  each non-empty batch the header with the iteration number followed by the batch, and
  the closing line. The claim as stated, for every \<open>B\<close>, fails: the loop stops at the
  polling limit, so the walker examines the first 151 responses only. (A record without
  these keys ends the walk with a \<open>KeyError\<close>: see \<open>foreign_record_raises\<close>.)
\<close>

theorem walker_emits_every_record:
  assumes "shard_serves c (sv w) (streamArn w) sid bs" and "length bs \<le> 151"
    and "list_all well_keyed (concat bs)"
  shows "raised (read_shard c sid w) = None \<and>
         record_lines (events_since w (final (read_shard c sid w))) =
           map record_line (concat bs) \<and>
         printed (events_since w (final (read_shard c sid w))) =
           Checking sid # founds 0 bs @ [ShardClosed (int (length bs) - 1)]"
proof -
  note r = read_shard_serves [OF assms]
  from r have p: "printed (events_since w (final (read_shard c sid w))) =
                    Checking sid # founds 0 bs @ [ShardClosed (int (length bs) - 1)]"
    by blast
  have "record_lines (events_since w (final (read_shard c sid w))) =
          record_lines (printed (events_since w (final (read_shard c sid w))))"
    by (simp only: record_lines_printed)
  also have "\<dots> = map record_line (concat bs)"
    unfolding p by (simp add: record_lines_founds [OF assms(3)])
  finally show ?thesis using r by blast
qed

theorem walker_emits_every_record_witness:
  "shard_serves (scripted demo_batches) (sv (start ())) (streamArn (start ())) ''shard-0''
     demo_batches \<and>
   length demo_batches \<le> 151 \<and>
   list_all well_keyed (concat demo_batches) \<and>
   raised (read_shard (scripted demo_batches) ''shard-0'' (start ())) = None \<and>
   record_lines (events_since (start ())
       (final (read_shard (scripted demo_batches) ''shard-0'' (start ())))) =
     [RecordLine ''INSERT'' ''Jill'' ''Ice Cream Part 2'',
      RecordLine ''MODIFY'' ''Herman Melville'' ''Moby Dick'',
      RecordLine ''INSERT'' ''Jill'' ''Ice Cream Part 2'']"
proof -
  have h1: "shard_serves (scripted demo_batches) (sv (start ())) (streamArn (start ()))
              ''shard-0'' demo_batches"
    by (rule shard_serves_scripted) (simp add: demo_batches_def)
  have h2: "length demo_batches \<le> 151" by (simp add: demo_batches_def)
  have h3: "list_all well_keyed (concat demo_batches)"
    by (simp add: demo_batches_def well_keyed_def sample_record_def other_record_def)
  from walker_emits_every_record [OF h1 h2 h3] h1 h2 h3 show ?thesis
    by (simp add: demo_batches_def record_line_def string_key_def
        sample_record_def other_record_def)
qed

text \<open>
  The claim as stated fails at \<open>B = 152\<close>: a service with stable cursors returns 152
  batches of one record each and closes the shard with the last one; the walk prints 151
  record lines.
\<close>

theorem long_shard_truncated:
  "shard_serves (scripted (replicate 152 [sample_record])) (sv (start ()))
     (streamArn (start ())) ''shard-0'' (replicate 152 [sample_record]) \<and>
   length (concat (replicate 152 [sample_record])) = 152 \<and>
   length (record_lines (events_since (start ())
     (final (read_shard (scripted (replicate 152 [sample_record])) ''shard-0'' (start ()))))) =
     151"
proof -
  let ?bs = "replicate 152 [sample_record]"
  let ?ev = "events_since (start ()) (final (read_shard (scripted ?bs) ''shard-0'' (start ())))"
  have h: "shard_serves (scripted ?bs) (sv (start ())) (streamArn (start ())) ''shard-0'' ?bs"
    by (rule shard_serves_scripted) simp
  have "shard_opens (scripted ?bs) (sv (start ())) (streamArn (start ())) ''shard-0''
          (take 151 ?bs)"
    by (rule shard_opens_scripted) simp
  then have o: "shard_opens (scripted ?bs) (sv (start ())) (streamArn (start ())) ''shard-0''
          (replicate 151 [sample_record])"
    by simp
  have n: "length (replicate 151 [sample_record]) = 151" by simp
  have k: "well_keyed sample_record" by (simp add: well_keyed_def sample_record_def)
  have wk: "list_all well_keyed (concat (replicate 151 [sample_record]))"
    using k by (simp add: list_all_iff)
  from read_shard_opens [OF o n wk] have
    p: "printed ?ev =
          Checking ''shard-0'' # founds 0 (replicate 151 [sample_record]) @
            [Print polling_limit_msg]"
    by blast
  have "record_lines ?ev = record_lines (printed ?ev)"
    by (simp only: record_lines_printed)
  also have "\<dots> = map record_line (concat (replicate 151 [sample_record]))"
    unfolding p by (simp add: record_lines_founds [OF wk])
  finally have "length (record_lines ?ev) = 151"
    by (simp add: length_concat_singletons)
  with h show ?thesis by (simp add: length_concat_singletons)
qed

text \<open>
  C2 (as amended). For a shard that does not close while it is walked, that is, whose
  iterator is handed out, whose first 151 fetches each return zero records and a next
  cursor and whose 152nd fetch returns a response, whatever the service does for other
  shards: the walk of the shard ends without an exception after exactly 151 passes
  through the loop, not 150. The poll counter is 151 when the test \<open>count > 150\<close> first
  succeeds, 152 fetches have been issued, the loop flag is off, and apart from the shard
  line the only line printed is the one saying that the shard is still active and the
  polling limit was reached.
\<close>

theorem never_closing_shard_stops_at_limit:
  assumes "shard_opens c (sv w) (streamArn w) sid (replicate 151 [])"
  shows "raised (read_shard c sid w) = None \<and>
         count (final (read_shard c sid w)) = 151 \<and>
         \<not> loop (final (read_shard c sid w)) \<and>
         length (fetched (events_since w (final (read_shard c sid w)))) = 152 \<and>
         printed (events_since w (final (read_shard c sid w))) =
           [Checking sid, Print polling_limit_msg]"
proof -
  have n: "length (replicate 151 ([] :: change_record list)) = 151" by simp
  have k: "list_all well_keyed (concat (replicate 151 ([] :: change_record list)))"
    by (simp add: list_all_iff)
  note r = read_shard_opens [OF assms n k]
  from r have "raised (read_shard c sid w) = None" by (rule conjunct1)
  from this read_shard_exit [OF this] r show ?thesis by simp
qed

theorem never_closing_shard_stops_at_limit_witness:
  "shard_opens (two_shards :: unit streams_client) (sv (start ())) (streamArn (start ()))
     ''open-shard'' (replicate 151 []) \<and>
   \<not> never_closes (two_shards :: unit streams_client) \<and>
   raised (read_shard two_shards ''open-shard'' (start ())) = None \<and>
   count (final (read_shard two_shards ''open-shard'' (start ()))) = 151 \<and>
   \<not> loop (final (read_shard two_shards ''open-shard'' (start ()))) \<and>
   length (fetched (events_since (start ())
     (final (read_shard two_shards ''open-shard'' (start ()))))) = 152 \<and>
   printed (events_since (start ()) (final (read_shard two_shards ''open-shard'' (start ())))) =
     [Checking ''open-shard'', Print polling_limit_msg]"
proof -
  have h1: "shard_opens (two_shards :: unit streams_client) (sv (start ()))
              (streamArn (start ())) ''open-shard'' (replicate 151 [])"
    by (rule two_shards_open)
  have h2: "\<not> never_closes (two_shards :: unit streams_client)"
  proof
    assume "never_closes (two_shards :: unit streams_client)"
    from this [unfolded never_closes_def, rule_format, of "()" "''closed-shard''"]
    show False by (simp add: two_shards_def)
  qed
  from never_closing_shard_stops_at_limit [OF h1] h1 h2 show ?thesis by blast
qed

text \<open>
  The claim as stated fails on the shard that stays open and empty: the poll counter, which
  counts the passes through the loop, ends at 151.
\<close>

theorem never_closing_shard_polls_151_times:
  "never_closes (idle :: unit streams_client) \<and>
   count (final (read_shard (idle :: unit streams_client) ''shard-0'' (start ()))) = 151 \<and>
   count (final (read_shard (idle :: unit streams_client) ''shard-0'' (start ()))) \<noteq> 150"
proof -
  have h1: "never_closes (idle :: unit streams_client)" by (rule never_closes_idle)
  have g: "get_shard_iterator idle (sv (start ())) (streamArn (start ())) ''shard-0'' =
             (Inr [], sv (start ()))"
    by (simp add: idle_def)
  have o: "shard_opens idle (sv (start ())) (streamArn (start ())) ''shard-0''
             (replicate 151 [])"
    by (rule never_closes_shard_opens [OF h1 g])
  have n: "length (replicate 151 ([] :: change_record list)) = 151" by simp
  have k: "list_all well_keyed (concat (replicate 151 ([] :: change_record list)))"
    by (simp add: list_all_iff)
  from read_shard_opens [OF o n k] h1 show ?thesis by simp
qed

text \<open>
  C3 (as amended). In a pass through the loop whose fetch response has zero records and a
  next cursor, the walker prints no record line, adds one to its poll counter and issues
  exactly one fetch, with the returned cursor. If that fetch raises, the exception leaves
  the loop. If it succeeds, its response becomes the one in hand, and the loop goes on
  exactly when the counter, after the increment, does not exceed 150; otherwise the
  polling-limit line is printed and the loop ends. The claim as stated, that the loop
  always continues, fails in the pass that starts with the counter at 150.
\<close>

theorem empty_batch_polls_on:
  assumes "Records (get_records_res w) = []"
    and "NextShardIterator (get_records_res w) = Some nxt"
  shows "count (final (loop_body c w)) = count w + 1 \<and>
         fetched (events_since w (final (loop_body c w))) = [nxt] \<and>
         record_lines (events_since w (final (loop_body c w))) = [] \<and>
         raised (loop_body c w) =
           (case fst (get_records c (sv w) nxt) of Inl e \<Rightarrow> Some e | Inr r \<Rightarrow> None) \<and>
         (raised (loop_body c w) = None \<longrightarrow>
            Inr (get_records_res (final (loop_body c w))) = fst (get_records c (sv w) nxt) \<and>
            loop (final (loop_body c w)) = (loop w \<and> count w + 1 \<le> 150) \<and>
            printed (events_since w (final (loop_body c w))) =
              (if count w + 1 \<le> 150 then [] else [Print polling_limit_msg]))"
proof -
  obtain res s1 where g: "get_records c (sv w) nxt = (res, s1)"
    by (cases "get_records c (sv w) nxt")
  have p: "print_records w = Inr (w\<lparr>records := []\<rparr>)"
    by (simp add: print_records_def assms(1))
  show ?thesis
  proof (cases res)
    case (Inl e)
    then show ?thesis
      by (simp add: loop_body_def p assms g Let_def final_def raised_def events_since_def)
  next
    case (Inr r)
    then show ?thesis
      by (simp add: loop_body_def p assms g Let_def final_def raised_def events_since_def)
  qed
qed

theorem empty_batch_polls_on_witness:
  "Records (get_records_res (polling_state 7 ''iiiiiiii'' ())) = [] \<and>
   NextShardIterator (get_records_res (polling_state 7 ''iiiiiiii'' ())) = Some ''iiiiiiii'' \<and>
   raised (loop_body idle (polling_state 7 ''iiiiiiii'' ())) = None \<and>
   count (final (loop_body idle (polling_state 7 ''iiiiiiii'' ()))) = 8 \<and>
   fetched (events_since (polling_state 7 ''iiiiiiii'' ())
     (final (loop_body idle (polling_state 7 ''iiiiiiii'' ())))) = [''iiiiiiii''] \<and>
   loop (final (loop_body idle (polling_state 7 ''iiiiiiii'' ()))) \<and>
   printed (events_since (polling_state 7 ''iiiiiiii'' ())
     (final (loop_body idle (polling_state 7 ''iiiiiiii'' ())))) = []"
proof -
  have h1: "Records (get_records_res (polling_state 7 ''iiiiiiii'' ())) = []"
    by (simp add: polling_state_def)
  have h2: "NextShardIterator (get_records_res (polling_state 7 ''iiiiiiii'' ())) =
              Some ''iiiiiiii''"
    by (simp add: polling_state_def)
  have g: "fst (get_records idle (sv (polling_state 7 ''iiiiiiii'' ())) ''iiiiiiii'') =
             Inr \<lparr>Records = [], NextShardIterator = Some ''iiiiiiiii''\<rparr>"
    by (simp add: idle_def)
  have k: "count (polling_state 7 ''iiiiiiii'' ()) = 7" "loop (polling_state 7 ''iiiiiiii'' ())"
    by (simp_all add: polling_state_def)
  from empty_batch_polls_on [OF h1 h2, of idle] h1 h2 k show ?thesis
    unfolding g by simp
qed

text \<open>
  The claim as stated fails on the shard that stays open and empty. Each of the 152
  fetches of its walk returns zero records and a next cursor, the poll counter ends at
  151 and the loop has ended. In the pass that starts with the counter at 150, the 151st,
  the response in hand has zero records and a next cursor, the fetch succeeds, and the
  loop flag is off afterwards.
\<close>

theorem empty_batch_at_limit_ends_loop:
  "list_all empty_open (outcomes (events_since (start ())
       (final (read_shard (idle :: unit streams_client) ''shard-0'' (start ()))))) \<and>
   length (outcomes (events_since (start ())
       (final (read_shard (idle :: unit streams_client) ''shard-0'' (start ()))))) = 152 \<and>
   count (final (read_shard (idle :: unit streams_client) ''shard-0'' (start ()))) = 151 \<and>
   \<not> loop (final (read_shard (idle :: unit streams_client) ''shard-0'' (start ()))) \<and>
   Records (get_records_res (polling_state 150 (replicate 151 (CHR ''i'')) ())) = [] \<and>
   NextShardIterator (get_records_res (polling_state 150 (replicate 151 (CHR ''i'')) ())) =
     Some (replicate 151 (CHR ''i'')) \<and>
   loop (polling_state 150 (replicate 151 (CHR ''i'')) ()) \<and>
   raised (loop_body idle (polling_state 150 (replicate 151 (CHR ''i'')) ())) = None \<and>
   \<not> loop (final (loop_body idle (polling_state 150 (replicate 151 (CHR ''i'')) ())))"
proof -
  let ?X = "read_shard (idle :: unit streams_client) ''shard-0'' (start ())"
  have h1: "never_closes (idle :: unit streams_client)" by (rule never_closes_idle)
  have g: "get_shard_iterator idle (sv (start ())) (streamArn (start ())) ''shard-0'' =
             (Inr [], sv (start ()))"
    by (simp add: idle_def)
  have o: "shard_opens idle (sv (start ())) (streamArn (start ())) ''shard-0''
             (replicate 151 [])"
    by (rule never_closes_shard_opens [OF h1 g])
  have n: "length (replicate 151 ([] :: change_record list)) = 151" by simp
  note r = read_shard_opens [OF o n no_records_well_keyed]
  from r have e: "raised ?X = None" by (rule conjunct1)
  have walk: "list_all empty_open (outcomes (events_since (start ()) (final ?X))) \<and>
        length (outcomes (events_since (start ()) (final ?X))) = 152 \<and>
        count (final ?X) = 151 \<and> \<not> loop (final ?X)"
    using read_shard_never_closes_outcomes [OF h1, of "start ()" "''shard-0''"]
      read_shard_exit [OF e] r
    by (simp add: length_fetched [symmetric])
  have step: "Records (get_records_res (polling_state 150 (replicate 151 (CHR ''i'')) ())) = [] \<and>
      NextShardIterator (get_records_res (polling_state 150 (replicate 151 (CHR ''i'')) ())) =
        Some (replicate 151 (CHR ''i'')) \<and>
      loop (polling_state 150 (replicate 151 (CHR ''i'')) ()) \<and>
      raised (loop_body idle (polling_state 150 (replicate 151 (CHR ''i'')) ())) = None \<and>
      \<not> loop (final (loop_body idle (polling_state 150 (replicate 151 (CHR ''i'')) ())))"
    by (simp add: polling_state_def start_def loop_body_def print_records_def idle_def
        Let_def final_def raised_def)
  from walk step show ?thesis by blast
qed

text \<open>
  C4 (as amended). In the walk of a shard, a fetch response without a next cursor is the
  last response of the walk: no fetch is issued after it. When it is one of the first 151
  responses, the ones the loop examines, and its records, if any, carry the string keys
  \<open>Author\<close> and \<open>Title\<close>, the walk raises nothing and its last event is the line that
  says the shard is closed, printed with the iteration number. The claim as stated, for
  every response, fails for the response of the 152nd fetch, which the loop never
  examines. (A record without these keys ends the walk with a \<open>KeyError\<close> before the
  cursor is tested: see \<open>foreign_record_raises\<close>.)
\<close>

theorem no_fetch_after_closing_response:
  assumes "i < length (outcomes (events_since w (final (read_shard c sid w))))"
    and "outcomes (events_since w (final (read_shard c sid w))) ! i = Inr q"
    and "NextShardIterator q = None"
  shows "Suc i = length (outcomes (events_since w (final (read_shard c sid w)))) \<and>
         (i \<le> 150 \<longrightarrow> list_all well_keyed (Records q) \<longrightarrow>
            raised (read_shard c sid w) = None \<and>
            \<not> loop (final (read_shard c sid w)) \<and>
            last (events_since w (final (read_shard c sid w))) = ShardClosed (int i))"
proof -
  note r = read_shard_closing [OF assms]
  show ?thesis
  proof (intro conjI impI)
    show "Suc i = length (outcomes (events_since w (final (read_shard c sid w))))"
      using r by (rule conjunct1)
  next
    assume "i \<le> 150" "list_all well_keyed (Records q)"
    with r show e: "raised (read_shard c sid w) = None" by blast
    then show "\<not> loop (final (read_shard c sid w))" by (rule read_shard_exit)
  next
    assume "i \<le> 150" "list_all well_keyed (Records q)"
    with r obtain pre where
      "events_since w (final (read_shard c sid w)) =
         pre @ found (int i) (Records q) @ [ShardClosed (int i)]"
      by blast
    then show "last (events_since w (final (read_shard c sid w))) = ShardClosed (int i)"
      by simp
  qed
qed

theorem no_fetch_after_closing_response_witness:
  "2 < length (outcomes (events_since (start ())
         (final (read_shard (scripted demo_batches) ''shard-0'' (start ()))))) \<and>
   outcomes (events_since (start ())
       (final (read_shard (scripted demo_batches) ''shard-0'' (start ())))) ! 2 =
     Inr \<lparr>Records = [other_record, sample_record], NextShardIterator = None\<rparr> \<and>
   (2::nat) \<le> 150 \<and>
   list_all well_keyed [other_record, sample_record] \<and>
   length (outcomes (events_since (start ())
       (final (read_shard (scripted demo_batches) ''shard-0'' (start ()))))) = 3 \<and>
   raised (read_shard (scripted demo_batches) ''shard-0'' (start ())) = None \<and>
   \<not> loop (final (read_shard (scripted demo_batches) ''shard-0'' (start ()))) \<and>
   last (events_since (start ())
       (final (read_shard (scripted demo_batches) ''shard-0'' (start ())))) = ShardClosed 2"
proof -
  let ?ev = "events_since (start ())
               (final (read_shard (scripted demo_batches) ''shard-0'' (start ())))"
  let ?q = "\<lparr>Records = [other_record, sample_record], NextShardIterator = None\<rparr>"
  have h1: "2 < length (outcomes ?ev)"
    unfolding demo_events by (simp add: record_line_def)
  have h2: "outcomes ?ev ! 2 = Inr ?q"
    unfolding demo_events by (simp add: record_line_def)
  have h3: "NextShardIterator ?q = None" by simp
  have h4: "list_all well_keyed (Records ?q)"
    by (simp add: well_keyed_def sample_record_def other_record_def)
  from no_fetch_after_closing_response [OF h1 h2 h3] h1 h2 h4 show ?thesis by simp
qed

text \<open>
  The claim as stated fails on a shard of 152 empty batches: the response of the last
  fetch has no next cursor, and the walk prints the polling-limit line, not the line that
  says the shard is closed.
\<close>

theorem closing_response_at_limit_not_marked:
  "last (outcomes (events_since (start ())
       (final (read_shard (scripted (replicate 152 [])) ''shard-0'' (start ()))))) =
     Inr \<lparr>Records = [], NextShardIterator = None\<rparr> \<and>
   printed (events_since (start ())
       (final (read_shard (scripted (replicate 152 [])) ''shard-0'' (start ())))) =
     [Checking ''shard-0'', Print polling_limit_msg]"
proof -
  have l: "length (replicate 152 ([] :: change_record list)) = 152" by simp
  from long_scripted_run [OF l, of "''shard-0''" "()"] show ?thesis by simp
qed

text \<open>
  C5. In the walk of a shard, the cursors passed to \<open>get_records\<close> are, in order and one
  fetch each, the cursors the service has handed out: the trim-horizon iterator first,
  then the next cursor of each response. Every fetch after the first uses the next cursor
  returned by the fetch just before it. Hence no cursor is fetched twice as long as the
  service hands out no cursor twice.
\<close>

theorem each_cursor_fetched_once:
  "fetched (events_since w (final (read_shard c sid w))) =
     take (length (fetched (events_since w (final (read_shard c sid w)))))
       (handed_out (events_since w (final (read_shard c sid w)))) \<and>
   (\<forall>j. Suc j < length (fetched (events_since w (final (read_shard c sid w)))) \<longrightarrow>
      (\<exists>q. outcomes (events_since w (final (read_shard c sid w))) ! j = Inr q \<and>
           NextShardIterator q =
             Some (fetched (events_since w (final (read_shard c sid w))) ! Suc j))) \<and>
   (distinct (handed_out (events_since w (final (read_shard c sid w)))) \<longrightarrow>
      distinct (fetched (events_since w (final (read_shard c sid w)))))"
proof (intro conjI allI impI)
  show "fetched (events_since w (final (read_shard c sid w))) =
          take (length (fetched (events_since w (final (read_shard c sid w)))))
            (handed_out (events_since w (final (read_shard c sid w))))"
    by (rule read_shard_cursors)
next
  fix j
  assume "Suc j < length (fetched (events_since w (final (read_shard c sid w))))"
  then show "\<exists>q. outcomes (events_since w (final (read_shard c sid w))) ! j = Inr q \<and>
               NextShardIterator q =
                 Some (fetched (events_since w (final (read_shard c sid w))) ! Suc j)"
    by (rule read_shard_chain)
next
  assume "distinct (handed_out (events_since w (final (read_shard c sid w))))"
  then have "distinct (take (length (fetched (events_since w (final (read_shard c sid w)))))
                         (handed_out (events_since w (final (read_shard c sid w)))))"
    by (rule distinct_take)
  then show "distinct (fetched (events_since w (final (read_shard c sid w))))"
    using read_shard_cursors [of w c sid] by simp
qed

theorem each_cursor_fetched_once_witness:
  "Suc 1 < length (fetched (events_since (start ())
       (final (read_shard (scripted demo_batches) ''shard-0'' (start ()))))) \<and>
   distinct (handed_out (events_since (start ())
       (final (read_shard (scripted demo_batches) ''shard-0'' (start ()))))) \<and>
   fetched (events_since (start ())
       (final (read_shard (scripted demo_batches) ''shard-0'' (start ())))) =
     [[], ''i'', ''ii''] \<and>
   (\<exists>q. outcomes (events_since (start ())
         (final (read_shard (scripted demo_batches) ''shard-0'' (start ())))) ! 1 = Inr q \<and>
        NextShardIterator q = Some ''ii'') \<and>
   distinct (fetched (events_since (start ())
       (final (read_shard (scripted demo_batches) ''shard-0'' (start ())))))"
proof -
  let ?ev = "events_since (start ())
               (final (read_shard (scripted demo_batches) ''shard-0'' (start ())))"
  have h: "handed_out ?ev = [[], ''i'', ''ii'']"
    unfolding demo_events by (simp add: record_line_def)
  have f: "fetched ?ev = [[], ''i'', ''ii'']"
    unfolding demo_events by (simp add: record_line_def)
  have h1: "Suc 1 < length (fetched ?ev)" unfolding f by simp
  have h2: "distinct (handed_out ?ev)" unfolding h by simp
  note t = each_cursor_fetched_once [of "start ()" "scripted demo_batches" "''shard-0''"]
  from t have "\<exists>q. outcomes ?ev ! 1 = Inr q \<and> NextShardIterator q = Some (fetched ?ev ! Suc 1)"
    using h1 by blast
  moreover from t h2 have "distinct (fetched ?ev)" by blast
  ultimately show ?thesis using h1 h2 f by simp
qed

text \<open>
  C6. On the table service, for an item of the key the cells use whose \<open>Version\<close> is 2: the
  conditional update that expects \<open>Version = 2\<close> succeeds and leaves the item with
  \<open>Version\<close> 3, which is also what the cell reads back and prints. The same update run
  again on the resulting state is refused by the service with
  \<open>ConditionalCheckFailedException\<close>; the second cell catches it, prints the two lines
  of the expected failure and no item, raises nothing, and the table is left as the first
  update made it.
\<close>

theorem conditional_update_succeeds_once:
  assumes "db nb = Some t" and "t (''Herman Melville'', ''Moby Dick'') = Some i"
    and "i ''Version'' = Some (N 2)"
  shows "raised (conditional_update_cell table_service nb) = None \<and>
         db (final (conditional_update_cell table_service nb)) =
           Some (t((''Herman Melville'', ''Moby Dick'') \<mapsto>
                   i(''Rating'' \<mapsto> N 1, ''Version'' \<mapsto> N 3))) \<and>
         updated_item (final (conditional_update_cell table_service nb)) ''Version'' =
           Some (N 3) \<and>
         fst (update_item table_service
                (db (final (conditional_update_cell table_service nb))) versioned_update) =
           Inl (ClientError ''ConditionalCheckFailedException'') \<and>
         raised (repeated_update_cell table_service
                   (final (conditional_update_cell table_service nb))) = None \<and>
         db (final (repeated_update_cell table_service
                   (final (conditional_update_cell table_service nb)))) =
           db (final (conditional_update_cell table_service nb)) \<and>
         out (final (repeated_update_cell table_service
                   (final (conditional_update_cell table_service nb)))) =
           out (final (conditional_update_cell table_service nb)) @
             [Print ''Exception Condition Triggered as expected'',
              Print ''Version attribute is not the expected value ... the item must have been updated'']"
proof -
  let ?i = "i(''Rating'' \<mapsto> N 1, ''Version'' \<mapsto> N 3)"
  let ?t = "t((''Herman Melville'', ''Moby Dick'') \<mapsto> ?i)"
  let ?nb = "nb\<lparr>db := Some ?t, updated_item := ?i, out := out nb @ [PrintItem ?i]\<rparr>"
  have 1: "conditional_update_cell table_service nb = Inr ?nb"
    by (rule first_update [OF assms])
  have f: "final (conditional_update_cell table_service nb) = ?nb"
    unfolding 1 by (simp add: final_def)
  have d: "db ?nb = Some ?t" by simp
  have k: "?t (''Herman Melville'', ''Moby Dick'') = Some ?i" by simp
  have v: "?i ''Version'' = Some (N 3)" by simp
  note 2 = second_update [OF d k v]
  from 2 have u: "fst (update_item table_service (db ?nb) versioned_update) =
                    Inl (ClientError ''ConditionalCheckFailedException'')"
    by simp
  from 2 have r: "repeated_update_cell table_service ?nb =
      Inr (?nb\<lparr>out := out ?nb @
             [Print ''Exception Condition Triggered as expected'',
              Print ''Version attribute is not the expected value ... the item must have been updated'']\<rparr>)"
    by (rule conjunct2)
  show ?thesis
    unfolding f
    using u unfolding r 1
    by (simp add: final_def raised_def)
qed

theorem conditional_update_succeeds_once_witness:
  "db (fresh_notebook (Some books)) = Some books \<and>
   books (''Herman Melville'', ''Moby Dick'') = Some moby_dick \<and>
   moby_dick ''Version'' = Some (N 2) \<and>
   raised (conditional_update_cell table_service (fresh_notebook (Some books))) = None \<and>
   updated_item (final (conditional_update_cell table_service (fresh_notebook (Some books))))
     ''Version'' = Some (N 3) \<and>
   fst (update_item table_service
          (db (final (conditional_update_cell table_service (fresh_notebook (Some books)))))
          versioned_update) =
     Inl (ClientError ''ConditionalCheckFailedException'') \<and>
   raised (repeated_update_cell table_service
             (final (conditional_update_cell table_service (fresh_notebook (Some books))))) =
     None"
proof -
  have h1: "db (fresh_notebook (Some books)) = Some books" by (simp add: fresh_notebook_def)
  have h2: "books (''Herman Melville'', ''Moby Dick'') = Some moby_dick"
    by (simp add: books_def)
  have h3: "moby_dick ''Version'' = Some (N 2)" by (simp add: moby_dick_def)
  from conditional_update_succeeds_once [OF h1 h2 h3] h1 h2 h3 show ?thesis by blast
qed

text \<open>
  C7. When \<open>create_table\<close> raises the \<open>ClientError\<close> with the code
  \<open>ResourceInUseException\<close>, the cell that creates the table raises nothing: it prints that
  the table already exists and there is nothing to do, and makes no further call. When
  \<open>table.delete\<close> raises the \<open>ClientError\<close> with the code \<open>ResourceNotFoundException\<close>,
  the cell that deletes the table raises nothing either: it prints that no table was
  found, and makes no further call.
\<close>

theorem existing_and_missing_table_are_no_ops:
  "(fst (create_table c (db nb)) = Inl (ClientError ''ResourceInUseException'') \<longrightarrow>
      raised (create_table_cell c nb) = None \<and>
      out (final (create_table_cell c nb)) =
        out nb @ [Print ''Creating table...'', Print ''Table already exists. Nothing to do.''] \<and>
      db (final (create_table_cell c nb)) = snd (create_table c (db nb))) \<and>
   (fst (delete_table c (db nb)) = Inl (ClientError ''ResourceNotFoundException'') \<longrightarrow>
      raised (delete_table_cell c nb) = None \<and>
      out (final (delete_table_cell c nb)) =
        out nb @ [Print ''Deleting table...'', Print ''No table found. Nothing to do.''] \<and>
      db (final (delete_table_cell c nb)) = snd (delete_table c (db nb)))"
proof (intro conjI impI)
  assume a: "fst (create_table c (db nb)) = Inl (ClientError ''ResourceInUseException'')"
  obtain d where g: "create_table c (db nb) = (Inl (ClientError ''ResourceInUseException''), d)"
    using a by (cases "create_table c (db nb)") simp
  have r: "create_table_cell c nb =
             Inr (nb\<lparr>out := out nb @ [Print ''Creating table...'',
                                      Print ''Table already exists. Nothing to do.''],
                     db := d\<rparr>)"
    by (simp add: create_table_cell_def create_table_handler_def say_def Let_def g)
  show "raised (create_table_cell c nb) = None" unfolding r by (simp add: raised_def)
  show "out (final (create_table_cell c nb)) =
          out nb @ [Print ''Creating table...'', Print ''Table already exists. Nothing to do.'']"
    unfolding r by (simp add: final_def)
  show "db (final (create_table_cell c nb)) = snd (create_table c (db nb))"
    unfolding r g by (simp add: final_def)
next
  assume a: "fst (delete_table c (db nb)) = Inl (ClientError ''ResourceNotFoundException'')"
  obtain d where g: "delete_table c (db nb) = (Inl (ClientError ''ResourceNotFoundException''), d)"
    using a by (cases "delete_table c (db nb)") simp
  have r: "delete_table_cell c nb =
             Inr (nb\<lparr>out := out nb @ [Print ''Deleting table...'',
                                      Print ''No table found. Nothing to do.''],
                     db := d\<rparr>)"
    by (simp add: delete_table_cell_def delete_table_handler_def say_def Let_def g)
  show "raised (delete_table_cell c nb) = None" unfolding r by (simp add: raised_def)
  show "out (final (delete_table_cell c nb)) =
          out nb @ [Print ''Deleting table...'', Print ''No table found. Nothing to do.'']"
    unfolding r by (simp add: final_def)
  show "db (final (delete_table_cell c nb)) = snd (delete_table c (db nb))"
    unfolding r g by (simp add: final_def)
qed

theorem existing_and_missing_table_are_no_ops_witness:
  "fst (create_table table_service (db (fresh_notebook (Some books)))) =
     Inl (ClientError ''ResourceInUseException'') \<and>
   raised (create_table_cell table_service (fresh_notebook (Some books))) = None \<and>
   out (final (create_table_cell table_service (fresh_notebook (Some books)))) =
     [Print ''Creating table...'', Print ''Table already exists. Nothing to do.''] \<and>
   fst (delete_table table_service (db (fresh_notebook None))) =
     Inl (ClientError ''ResourceNotFoundException'') \<and>
   raised (delete_table_cell table_service (fresh_notebook None)) = None \<and>
   out (final (delete_table_cell table_service (fresh_notebook None))) =
     [Print ''Deleting table...'', Print ''No table found. Nothing to do.'']"
proof -
  have h1: "fst (create_table table_service (db (fresh_notebook (Some books)))) =
              Inl (ClientError ''ResourceInUseException'')"
    by (simp add: table_service_def fresh_notebook_def)
  have h2: "fst (delete_table table_service (db (fresh_notebook None))) =
              Inl (ClientError ''ResourceNotFoundException'')"
    by (simp add: table_service_def fresh_notebook_def)
  have o: "out (fresh_notebook (Some books)) = []" "out (fresh_notebook (None :: table option)) = []"
    by (simp_all add: fresh_notebook_def)
  from existing_and_missing_table_are_no_ops [of table_service "fresh_notebook (Some books)"]
    existing_and_missing_table_are_no_ops [of table_service "fresh_notebook None"]
    h1 h2 o
  show ?thesis by simp
qed

text \<open>
  C8. The claim fails on the conditional put. When \<open>put_item\<close> raises a \<open>ClientError\<close> whose
  code is not \<open>ConditionalCheckFailedException\<close>, here the throttling error
  \<open>ProvisionedThroughputExceededException\<close>, the handler catches it and has no branch
  for it: the cell raises nothing and prints nothing, as if the put had succeeded. On the
  same error the handler of the repeated update, which has an \<open>else\<close>, prints the error.
  (For the walker the claim holds: see \<open>fetch_failure_leaves_walk\<close>.)
\<close>

theorem conditional_put_swallows_throttling:
  "fst (put_item throttled (db nb) jill_item (Some (AttributeNotExists ''Title''))) =
     Inl (ClientError ''ProvisionedThroughputExceededException'') \<and>
   raised (conditional_put_cell throttled nb) = None \<and>
   out (final (conditional_put_cell throttled nb)) = out nb \<and>
   raised (repeated_update_cell throttled nb) = None \<and>
   out (final (repeated_update_cell throttled nb)) =
     out nb @ [PrintError (ClientError ''ProvisionedThroughputExceededException'')]"
proof -
  have p: "put_item throttled (db nb) jill_item (Some (AttributeNotExists ''Title'')) =
             (Inl (ClientError ''ProvisionedThroughputExceededException''), db nb)"
    by (simp add: throttled_def)
  have u: "update_item throttled (db nb) versioned_update =
             (Inl (ClientError ''ProvisionedThroughputExceededException''), db nb)"
    by (simp add: throttled_def)
  have 1: "conditional_put_cell throttled nb = Inr nb"
    by (simp add: conditional_put_cell_def p)
  have 2: "repeated_update_cell throttled nb =
             Inr (nb\<lparr>out := out nb @
                    [PrintError (ClientError ''ProvisionedThroughputExceededException'')]\<rparr>)"
    by (simp add: repeated_update_cell_def u)
  show ?thesis
    unfolding 1 2 p by (simp add: raised_def final_def)
qed

text \<open>
  C9 (as amended). When one of the first 151 fetch responses of a shard, the ones the loop
  examines, contains records but no next cursor, and every record of it carries the string
  keys \<open>Author\<close> and \<open>Title\<close>, the walk raises nothing and ends with the header of that batch,
  then every record of the batch in order, then the line that says the shard is closed:
  the records are printed before the cursor is tested. The claim as stated, for every such
  response, fails for the response of the 152nd fetch: the loop has stopped at the polling
  limit and its records are never printed. (A record without these keys ends the walk
  with a \<open>KeyError\<close>, the records after it unprinted: see \<open>foreign_record_raises\<close>.)
\<close>

theorem last_batch_printed_before_closing:
  assumes "i < length (outcomes (events_since w (final (read_shard c sid w))))"
    and "outcomes (events_since w (final (read_shard c sid w))) ! i = Inr q"
    and "Records q \<noteq> []" and "NextShardIterator q = None" and "i \<le> 150"
    and "list_all well_keyed (Records q)"
  shows "raised (read_shard c sid w) = None \<and>
         (\<exists>pre. events_since w (final (read_shard c sid w)) =
                  pre @ FoundRecords (int i) # map record_line (Records q) @
                    [ShardClosed (int i)])"
  using read_shard_closing [OF assms(1,2,4)] assms(3,5,6) found_well_keyed [OF assms(6), of "int i"]
  by simp

theorem last_batch_printed_before_closing_witness:
  "2 < length (outcomes (events_since (start ())
         (final (read_shard (scripted demo_batches) ''shard-0'' (start ()))))) \<and>
   outcomes (events_since (start ())
       (final (read_shard (scripted demo_batches) ''shard-0'' (start ())))) ! 2 =
     Inr \<lparr>Records = [other_record, sample_record], NextShardIterator = None\<rparr> \<and>
   (2::nat) \<le> 150 \<and>
   list_all well_keyed [other_record, sample_record] \<and>
   raised (read_shard (scripted demo_batches) ''shard-0'' (start ())) = None \<and>
   (\<exists>pre. events_since (start ())
       (final (read_shard (scripted demo_batches) ''shard-0'' (start ()))) =
     pre @ [FoundRecords 2, record_line other_record, record_line sample_record,
            ShardClosed 2])"
proof -
  let ?ev = "events_since (start ())
               (final (read_shard (scripted demo_batches) ''shard-0'' (start ())))"
  let ?q = "\<lparr>Records = [other_record, sample_record], NextShardIterator = None\<rparr>"
  have h1: "2 < length (outcomes ?ev)"
    unfolding demo_events by (simp add: record_line_def)
  have h2: "outcomes ?ev ! 2 = Inr ?q"
    unfolding demo_events by (simp add: record_line_def)
  have h3: "Records ?q \<noteq> []" by simp
  have h4: "NextShardIterator ?q = None" by simp
  have h5: "(2::nat) \<le> 150" by simp
  have h6: "list_all well_keyed (Records ?q)"
    by (simp add: well_keyed_def other_record_def sample_record_def)
  from last_batch_printed_before_closing [OF h1 h2 h3 h4 h5 h6] h1 h2 h6 show ?thesis by simp
qed

text \<open>
  The claim as stated fails on a shard of 151 empty batches and a last batch of one record:
  the response of the last fetch has the record and no next cursor, and the walk prints no
  record line.
\<close>

theorem last_batch_at_limit_dropped:
  "last (outcomes (events_since (start ())
       (final (read_shard (scripted (replicate 151 [] @ [[sample_record]])) ''shard-0''
         (start ()))))) =
     Inr \<lparr>Records = [sample_record], NextShardIterator = None\<rparr> \<and>
   record_lines (events_since (start ())
       (final (read_shard (scripted (replicate 151 [] @ [[sample_record]])) ''shard-0''
         (start ())))) = [] \<and>
   printed (events_since (start ())
       (final (read_shard (scripted (replicate 151 [] @ [[sample_record]])) ''shard-0''
         (start ())))) =
     [Checking ''shard-0'', Print polling_limit_msg]"
proof -
  let ?bs = "replicate 151 [] @ [[sample_record]]"
  let ?ev = "events_since (start ()) (final (read_shard (scripted ?bs) ''shard-0'' (start ())))"
  have l: "length ?bs = 152" by simp
  have k: "list_all well_keyed (concat (take 151 ?bs))" by (simp add: list_all_iff)
  note r = long_scripted_run [OF l k, of "''shard-0''" "()"]
  from r have p: "printed ?ev = [Checking ''shard-0'', Print polling_limit_msg]"
    by simp
  have "record_lines ?ev = record_lines (printed ?ev)"
    by (simp only: record_lines_printed)
  then have "record_lines ?ev = []" unfolding p by simp
  with r p show ?thesis by (simp add: nth_append)
qed



end
